theory Spec2Isabelle
  imports Main "HOL-Library.AList"
begin

section \<open>The agent model of matches.py\<close>

text \<open>
  The program keeps its agents in Python dictionaries keyed by name. A Python dictionary
  keeps its keys in insertion order, assigning to a present key replaces the value where
  it stands, and the engine copies the key order into its work list. Dictionaries are
  therefore association lists: \<open>map_of\<close> is the lookup, \<open>AList.update\<close> the assignment
  \<open>d[k] = v\<close>, and \<open>AList.map_entry\<close> the mutation of the object stored under a key.
  A failed lookup raises \<open>KeyError\<close> and \<open>unmatched[0]\<close> on an empty list raises
  \<open>IndexError\<close>; both are values of the type \<open>error\<close>.
\<close>

datatype error = KeyError | IndexError

text \<open>
  Class \<open>Person\<close>: \<open>partner\<close> and \<open>rank\<close> start as \<open>None\<close>. The rank is only ever
  assigned a list position plus one, a cursor, or the constant 0, so it is a natural
  number when it is set.
\<close>

record person =
  name :: string
  priorities :: "string list"
  partner :: "string option"
  rank :: "nat option"

text \<open>
  Class \<open>Proposer\<close>: \<open>proposalIndex\<close> is initialised to 0 and only ever incremented,
  so it is a natural number.
\<close>

record proposer = person +
  proposalIndex :: nat

text \<open>Class \<open>Proposee\<close>: \<open>ranking\<close> is the reverse lookup dictionary.\<close>

record proposee = person +
  ranking :: "(string \<times> nat) list"

definition Proposer :: "string \<Rightarrow> string list \<Rightarrow> proposer" where
  "Proposer nm prios =
     \<lparr>name = nm, priorities = prios, partner = None, rank = None, proposalIndex = 0\<rparr>"

text \<open>
  The constructor's loop \<open>for rank in range(len(priorities)): ranking[priorities[rank]] = rank\<close>.
\<close>

definition mk_ranking :: "string list \<Rightarrow> (string \<times> nat) list" where
  "mk_ranking prios = fold (\<lambda>r d. AList.update (prios ! r) r d) [0..<length prios] []"

definition Proposee :: "string \<Rightarrow> string list \<Rightarrow> proposee" where
  "Proposee nm prios =
     \<lparr>name = nm, priorities = prios, partner = None, rank = None,
      ranking = mk_ranking prios\<rparr>"

text \<open>
  \<open>Proposer.nextProposal\<close> returns its value together with the mutated object.
  The guard returns \<open>None\<close> before the cursor is touched.
\<close>

definition nextProposal :: "proposer \<Rightarrow> string option \<times> proposer" where
  "nextProposal self =
     (if proposalIndex self \<ge> length (priorities self) then (None, self)
      else (Some (priorities self ! proposalIndex self),
            self\<lparr>proposalIndex := proposalIndex self + 1\<rparr>))"

text \<open>
  \<open>Proposee.evaluateProposal\<close>. Python's \<open>or\<close> evaluates \<open>self.ranking[self.partner]\<close>
  only when the partner is set; that lookup raises \<open>KeyError\<close> for a partner outside
  the dictionary.
\<close>

definition evaluateProposal :: "proposee \<Rightarrow> string \<Rightarrow> error + bool \<times> proposee" where
  "evaluateProposal self suitor =
     (case map_of (ranking self) suitor of
        None \<Rightarrow> Inr (False, self)
      | Some rs \<Rightarrow>
          (case partner self of
             None \<Rightarrow> Inr (True, self\<lparr>rank := Some (rs + 1)\<rparr>)
           | Some p \<Rightarrow>
               (case map_of (ranking self) p of
                  None \<Rightarrow> Inl KeyError
                | Some rp \<Rightarrow>
                    if rs < rp then Inr (True, self\<lparr>rank := Some (rs + 1)\<rparr>)
                    else Inr (False, self))))"

text \<open>\<open>Proposee.evaluateGreedily\<close> performs no lookup that can fail.\<close>

definition evaluateGreedily :: "proposee \<Rightarrow> string \<Rightarrow> error + bool \<times> proposee" where
  "evaluateGreedily self suitor =
     (case map_of (ranking self) suitor of
        None \<Rightarrow> Inr (False, self)
      | Some rs \<Rightarrow>
          if partner self = None then Inr (True, self\<lparr>rank := Some (rs + 1)\<rparr>)
          else Inr (False, self))"

section \<open>The matching engine\<close>

text \<open>
  The state of the loop of \<open>doMatch\<close> and \<open>doGreedyMatch\<close>: the two dictionaries and
  the work list.
\<close>

record state =
  proposerPref :: "(string \<times> proposer) list"
  unmatched :: "string list"
  proposees :: "(string \<times> proposee) list"

text \<open>
  The set-up before the loop, from the parsed lists of (name, priority list) pairs:
  later pairs with a name already seen overwrite the earlier object.
\<close>

definition initState :: "(string \<times> string list) list \<Rightarrow> (string \<times> string list) list \<Rightarrow> state" where
  "initState proposerList proposeeList =
     (let pp = fold (\<lambda>(person, priority) d. AList.update person (Proposer person priority) d)
                 proposerList []
      in \<lparr>proposerPref = pp,
          unmatched = map fst pp,
          proposees = fold (\<lambda>(person, priority) d. AList.update person (Proposee person priority) d)
                        proposeeList []\<rparr>)"

text \<open>
  What one iteration did, as the verbose narration reports it: \<open>No more options\<close>,
  \<open>rejects the proposal\<close>, or \<open>accepts the proposal\<close> with the proposer that
  \<open>gets dumped\<close>, if any.
\<close>

datatype outcome =
    NoMoreOptions string
  | Rejects string string
  | Accepts string string "string option"

text \<open>
  One iteration of the \<open>while\<close> loop (lines 180 to 216, and 250 to 286). The two loops
  differ only in the method they call on \<open>who\<close>, which is the parameter \<open>evaluate\<close>.
  The test \<open>if who.partner:\<close> is Python truthiness: false for \<open>None\<close> and for the
  empty string.
\<close>

definition loopBody ::
  "(proposee \<Rightarrow> string \<Rightarrow> error + bool \<times> proposee) \<Rightarrow> state \<Rightarrow> error + outcome \<times> state" where
  "loopBody evaluate s =
     (case unmatched s of
        [] \<Rightarrow> Inl IndexError
      | u # us \<Rightarrow>
     (case map_of (proposerPref s) u of
        None \<Rightarrow> Inl KeyError
      | Some m0 \<Rightarrow>
     (case nextProposal m0 of
        (None, m) \<Rightarrow> Inr (NoMoreOptions (name m), s\<lparr>unmatched := us\<rparr>)
      | (Some n, m) \<Rightarrow>
     (let pp1 = AList.update u m (proposerPref s) in
      case map_of (proposees s) n of
        None \<Rightarrow> Inl KeyError
      | Some who0 \<Rightarrow>
     (case evaluate who0 (name m) of
        Inl e \<Rightarrow> Inl e
      | Inr (False, who) \<Rightarrow>
          Inr (Rejects (name m) (name who),
               s\<lparr>proposerPref := pp1, proposees := AList.update n who (proposees s)\<rparr>)
      | Inr (True, who) \<Rightarrow>
     (case (case partner who of
              None \<Rightarrow> Inr (pp1, unmatched s, None)
            | Some old \<Rightarrow>
                if old = [] then Inr (pp1, unmatched s, None)
                else (case map_of pp1 old of
                        None \<Rightarrow> Inl KeyError
                      | Some mOld \<Rightarrow>
                          Inr (AList.update old (mOld\<lparr>partner := None, rank := Some 0\<rparr>) pp1,
                               unmatched s @ [name mOld],
                               Some (name mOld)))) of
        Inl e \<Rightarrow> Inl e
      | Inr (pp2, um, dumped) \<Rightarrow>
          Inr (Accepts (name m) (name who) dumped,
               \<lparr>proposerPref =
                  AList.map_entry u
                    (\<lambda>m'. m'\<lparr>partner := Some (name who), rank := Some (proposalIndex m')\<rparr>) pp2,
                unmatched = tl um,
                proposees = AList.update n (who\<lparr>partner := Some (name m)\<rparr>) (proposees s)\<rparr>)))))))"

text \<open>
  The state at the quiescent point after \<open>k\<close> iterations, or the final state when the
  loop has ended before.
\<close>

fun loopIter ::
  "(proposee \<Rightarrow> string \<Rightarrow> error + bool \<times> proposee) \<Rightarrow> nat \<Rightarrow> state \<Rightarrow> error + state" where
  "loopIter evaluate 0 s = Inr s"
| "loopIter evaluate (Suc k) s =
     (if unmatched s = [] then Inr s
      else (case loopBody evaluate s of
              Inl e \<Rightarrow> Inl e
            | Inr (out, s') \<Rightarrow> loopIter evaluate k s'))"

text \<open>
  The outcomes of the first \<open>k\<close> iterations, in order, and the number of proposals
  a proposer has made among them (each \<open>proposes to\<close> line is answered by one
  \<open>accepts\<close> or \<open>rejects\<close>).
\<close>

fun loopTrace ::
  "(proposee \<Rightarrow> string \<Rightarrow> error + bool \<times> proposee) \<Rightarrow> nat \<Rightarrow> state \<Rightarrow> outcome list" where
  "loopTrace evaluate 0 s = []"
| "loopTrace evaluate (Suc k) s =
     (if unmatched s = [] then []
      else (case loopBody evaluate s of
              Inl e \<Rightarrow> []
            | Inr (out, s') \<Rightarrow> out # loopTrace evaluate k s'))"

fun proposalsBy :: "string \<Rightarrow> outcome list \<Rightarrow> nat" where
  "proposalsBy p [] = 0"
| "proposalsBy p (NoMoreOptions a # outs) = proposalsBy p outs"
| "proposalsBy p (Rejects a b # outs) = (if a = p then 1 else 0) + proposalsBy p outs"
| "proposalsBy p (Accepts a b d # outs) = (if a = p then 1 else 0) + proposalsBy p outs"

text \<open>
  The \<open>while len(unmatched) > 0\<close> loop itself, run to its end. Its termination is proved
  below from the quantity \<open>remaining\<close>: the proposals not yet made plus the length of
  the work list.
\<close>

definition todo :: "proposer \<Rightarrow> nat" where
  "todo m = length (priorities m) - proposalIndex m"

definition remaining :: "state \<Rightarrow> nat" where
  "remaining s = sum_list (map (\<lambda>(k, m). todo m) (proposerPref s)) + length (unmatched s)"

function matchLoop ::
  "(proposee \<Rightarrow> string \<Rightarrow> error + bool \<times> proposee) \<Rightarrow> state \<Rightarrow> error + state" where
  "matchLoop evaluate s =
     (if unmatched s = [] then Inr s
      else (case loopBody evaluate s of
              Inl e \<Rightarrow> Inl e
            | Inr (out, s') \<Rightarrow> matchLoop evaluate s'))"
  by pat_completeness auto

text \<open>
  \<open>doMatch\<close> and \<open>doGreedyMatch\<close> on the parsed preference lists (what \<open>parseFile\<close>
  returns for the two files); the result is the state that the final report prints.
\<close>

definition doMatch ::
  "(string \<times> string list) list \<Rightarrow> (string \<times> string list) list \<Rightarrow> error + state" where
  "doMatch proposerList proposeeList =
     matchLoop evaluateProposal (initState proposerList proposeeList)"

definition doGreedyMatch ::
  "(string \<times> string list) list \<Rightarrow> (string \<times> string list) list \<Rightarrow> error + state" where
  "doGreedyMatch proposerList proposeeList =
     matchLoop evaluateGreedily (initState proposerList proposeeList)"

section \<open>Invariants of the loop\<close>

text \<open>
  Facts that hold at every quiescent point of a run: the dictionary keys are the agents'
  names and each \<open>ranking\<close> is the one its constructor built; the work list has no
  duplicates and holds unpartnered proposers only; a proposee's partner is a proposer
  that holds it in return, is in the proposee's \<open>ranking\<close>, and determines its
  \<open>rank\<close>; a partnered proposer's partner is the identifier just below its cursor.
\<close>

definition names_ok :: "state \<Rightarrow> bool" where
  "names_ok s \<longleftrightarrow>
     (\<forall>k m. map_of (proposerPref s) k = Some m \<longrightarrow> name m = k) \<and>
     (\<forall>k w. map_of (proposees s) k = Some w \<longrightarrow>
        name w = k \<and> ranking w = mk_ranking (priorities w))"

definition unmatched_ok :: "state \<Rightarrow> bool" where
  "unmatched_ok s \<longleftrightarrow>
     distinct (unmatched s) \<and>
     (\<forall>u \<in> set (unmatched s). \<exists>m. map_of (proposerPref s) u = Some m \<and> partner m = None)"

definition partners_back :: "state \<Rightarrow> bool" where
  "partners_back s \<longleftrightarrow>
     (\<forall>r w p. map_of (proposees s) r = Some w \<and> partner w = Some p \<longrightarrow>
        (\<exists>m. map_of (proposerPref s) p = Some m \<and> partner m = Some r) \<and>
        (\<exists>i. map_of (ranking w) p = Some i \<and> rank w = Some (i + 1)))"

definition cursor_ok :: "state \<Rightarrow> bool" where
  "cursor_ok s \<longleftrightarrow>
     (\<forall>p m. map_of (proposerPref s) p = Some m \<longrightarrow>
        proposalIndex m \<le> length (priorities m) \<and>
        (\<forall>q. partner m = Some q \<longrightarrow>
           0 < proposalIndex m \<and> priorities m ! (proposalIndex m - 1) = q \<and>
           rank m = Some (proposalIndex m)))"

definition engine_inv :: "state \<Rightarrow> bool" where
  "engine_inv s \<longleftrightarrow> names_ok s \<and> unmatched_ok s \<and> partners_back s \<and> cursor_ok s"

text \<open>
  The converse of \<open>partners_back\<close>: the partner a proposer records is a proposee that
  records this proposer as its partner.
\<close>

definition partners_forth :: "state \<Rightarrow> bool" where
  "partners_forth s \<longleftrightarrow>
     (\<forall>p m q. map_of (proposerPref s) p = Some m \<and> partner m = Some q \<longrightarrow>
        (\<exists>w. map_of (proposees s) q = Some w \<and> partner w = Some p))"

text \<open>
  Partner relations are symmetric: both directions at once, over the two dictionaries.
\<close>

definition mutual :: "state \<Rightarrow> bool" where
  "mutual s \<longleftrightarrow>
     (\<forall>p m q. map_of (proposerPref s) p = Some m \<and> partner m = Some q \<longrightarrow>
        (\<exists>w. map_of (proposees s) q = Some w \<and> partner w = Some p)) \<and>
     (\<forall>q w p. map_of (proposees s) q = Some w \<and> partner w = Some p \<longrightarrow>
        (\<exists>m. map_of (proposerPref s) p = Some m \<and> partner m = Some q))"

text \<open>
  The module docstring's assumption that the identifiers are self-consistent between the
  two files, as far as the engine depends on it: every identifier in a proposer's
  priority list is the name of a proposee.
\<close>

definition identifiers_known ::
  "(string \<times> string list) list \<Rightarrow> (string \<times> string list) list \<Rightarrow> bool" where
  "identifiers_known proposerList proposeeList =
     list_all (\<lambda>(person, priority). list_all (\<lambda>n. n \<in> fst ` set proposeeList) priority)
       proposerList"

text \<open>
  The same assumption on a state of the loop: every lookup \<open>proposees[n]\<close> that a
  proposer's priority list can cause finds a proposee.
\<close>

definition prefs_known :: "state \<Rightarrow> bool" where
  "prefs_known s \<longleftrightarrow>
     (\<forall>p m. map_of (proposerPref s) p = Some m \<longrightarrow>
        (\<forall>n \<in> set (priorities m). map_of (proposees s) n \<noteq> None))"




text \<open>
  A proposer ranks \<open>r\<close> strictly better than \<open>q\<close> when \<open>r\<close> stands in its priority list
  before the first place where \<open>q\<close> stands.
\<close>

definition ranksBetter :: "string list \<Rightarrow> string \<Rightarrow> string \<Rightarrow> bool" where
  "ranksBetter prios r q \<longleftrightarrow> q \<in> set prios \<and> r \<in> set (takeWhile (\<lambda>x. x \<noteq> q) prios)"

text \<open>
  A proposee ranks the suitor \<open>p\<close> strictly better than its own partner when \<open>p\<close> is in
  its \<open>ranking\<close> and the proposee has no partner, or its partner's index in the
  \<open>ranking\<close> is strictly higher (a partner outside the \<open>ranking\<close> counts as worse).
\<close>

definition betterThanPartner :: "proposee \<Rightarrow> string \<Rightarrow> bool" where
  "betterThanPartner w p =
     (case map_of (ranking w) p of
        None \<Rightarrow> False
      | Some i \<Rightarrow>
          (case partner w of
             None \<Rightarrow> True
           | Some p' \<Rightarrow>
               (case map_of (ranking w) p' of None \<Rightarrow> True | Some j \<Rightarrow> i < j)))"

text \<open>
  Every proposee a proposer has already proposed to (the entries of its priority list
  below its \<open>proposalIndex\<close>) does not rank that proposer strictly better than the
  partner it holds.
\<close>

definition proposals_settled :: "state \<Rightarrow> bool" where
  "proposals_settled s \<longleftrightarrow>
     (\<forall>p m i. map_of (proposerPref s) p = Some m \<and> i < proposalIndex m \<longrightarrow>
        (\<exists>w. map_of (proposees s) (priorities m ! i) = Some w \<and> \<not> betterThanPartner w p))"

text \<open>
  The priority lists held in a state are those of the two input lists: the loop never
  changes \<open>priorities\<close>.
\<close>

definition prefs_from_input ::
  "(string \<times> string list) list \<Rightarrow> (string \<times> string list) list \<Rightarrow> state \<Rightarrow> bool" where
  "prefs_from_input pl ql s \<longleftrightarrow>
     (\<forall>p m. map_of (proposerPref s) p = Some m \<longrightarrow> (p, priorities m) \<in> set pl) \<and>
     (\<forall>r w. map_of (proposees s) r = Some w \<longrightarrow> (r, priorities w) \<in> set ql)"

text \<open>
  The first scenario of the specification: both proposers rank X before Y and both
  proposees rank A before B; the stable run ends with A and X, B and Y paired.
\<close>

definition pairs_proposers :: "(string \<times> string list) list" where
  "pairs_proposers = [(''A'', [''X'', ''Y'']), (''B'', [''X'', ''Y''])]"

definition pairs_proposees :: "(string \<times> string list) list" where
  "pairs_proposees = [(''X'', [''A'', ''B'']), (''Y'', [''A'', ''B''])]"

definition pairs_B :: proposer where
  "pairs_B = \<lparr>name = ''B'', priorities = [''X'', ''Y''], partner = Some ''Y'', rank = Some 2,
              proposalIndex = 2\<rparr>"

definition pairs_X :: proposee where
  "pairs_X = \<lparr>name = ''X'', priorities = [''A'', ''B''], partner = Some ''A'', rank = Some 1,
              ranking = [(''A'', 0), (''B'', 1)]\<rparr>"

definition pairs_final :: state where
  "pairs_final =
     \<lparr>proposerPref =
        [(''A'', \<lparr>name = ''A'', priorities = [''X'', ''Y''], partner = Some ''X'',
                 rank = Some 1, proposalIndex = 1\<rparr>),
         (''B'', pairs_B)],
      unmatched = [],
      proposees =
        [(''X'', pairs_X),
         (''Y'', \<lparr>name = ''Y'', priorities = [''A'', ''B''], partner = Some ''B'',
                 rank = Some 2, ranking = [(''A'', 0), (''B'', 1)]\<rparr>)]\<rparr>"

section \<open>A worked scenario\<close>

text \<open>
  The second scenario of the specification: proposers \<open>A: [X]\<close> and \<open>B: [X, Y]\<close>,
  proposees \<open>X: [B, A]\<close> and \<open>Y: [B]\<close>, with the states the stable run passes
  through (A is accepted by X, B displaces A, A has no more options) and those of the
  greedy run (A is accepted by X, B is rejected by X, B is accepted by Y).
\<close>

definition demo_proposers :: "(string \<times> string list) list" where
  "demo_proposers = [(''A'', [''X'']), (''B'', [''X'', ''Y''])]"

definition demo_proposees :: "(string \<times> string list) list" where
  "demo_proposees = [(''X'', [''B'', ''A'']), (''Y'', [''B''])]"

definition demo_X :: "string option \<Rightarrow> nat option \<Rightarrow> string \<times> proposee" where
  "demo_X p r =
     (''X'', \<lparr>name = ''X'', priorities = [''B'', ''A''], partner = p, rank = r,
              ranking = [(''B'', 0), (''A'', 1)]\<rparr>)"

definition demo_Y :: "string option \<Rightarrow> nat option \<Rightarrow> string \<times> proposee" where
  "demo_Y p r =
     (''Y'', \<lparr>name = ''Y'', priorities = [''B''], partner = p, rank = r,
              ranking = [(''B'', 0)]\<rparr>)"

definition demo_A :: "string option \<Rightarrow> nat option \<Rightarrow> nat \<Rightarrow> string \<times> proposer" where
  "demo_A p r i =
     (''A'', \<lparr>name = ''A'', priorities = [''X''], partner = p, rank = r, proposalIndex = i\<rparr>)"

definition demo_B :: "string option \<Rightarrow> nat option \<Rightarrow> nat \<Rightarrow> string \<times> proposer" where
  "demo_B p r i =
     (''B'', \<lparr>name = ''B'', priorities = [''X'', ''Y''], partner = p, rank = r,
              proposalIndex = i\<rparr>)"

definition demo_accepted :: state where
  "demo_accepted =
     \<lparr>proposerPref = [demo_A (Some ''X'') (Some 1) 1, demo_B None None 0],
      unmatched = [''B''],
      proposees = [demo_X (Some ''A'') (Some 2), demo_Y None None]\<rparr>"

definition demo_displaced :: state where
  "demo_displaced =
     \<lparr>proposerPref = [demo_A None (Some 0) 1, demo_B (Some ''X'') (Some 1) 1],
      unmatched = [''A''],
      proposees = [demo_X (Some ''B'') (Some 1), demo_Y None None]\<rparr>"

definition demo_final :: state where
  "demo_final =
     \<lparr>proposerPref = [demo_A None (Some 0) 1, demo_B (Some ''X'') (Some 1) 1],
      unmatched = [],
      proposees = [demo_X (Some ''B'') (Some 1), demo_Y None None]\<rparr>"

definition demo_greedy_rejected :: state where
  "demo_greedy_rejected =
     \<lparr>proposerPref = [demo_A (Some ''X'') (Some 1) 1, demo_B None None 1],
      unmatched = [''B''],
      proposees = [demo_X (Some ''A'') (Some 2), demo_Y None None]\<rparr>"

definition demo_greedy_final :: state where
  "demo_greedy_final =
     \<lparr>proposerPref = [demo_A (Some ''X'') (Some 1) 1, demo_B (Some ''Y'') (Some 2) 2],
      unmatched = [],
      proposees = [demo_X (Some ''A'') (Some 2), demo_Y (Some ''B'') (Some 1)]\<rparr>"

section \<open>The agent operations\<close>

text \<open>
  C3, as amended. \<open>nextProposal\<close> returns the identifier under the cursor and advances
  the cursor by exactly one while the cursor is below the list length; once the cursor
  has reached the list length it returns \<open>None\<close> and leaves the object, cursor
  included, as it was.
\<close>

theorem nextProposal_result:
  "(proposalIndex self < length (priorities self) \<longrightarrow>
      fst (nextProposal self) = Some (priorities self ! proposalIndex self) \<and>
      proposalIndex (snd (nextProposal self)) = proposalIndex self + 1 \<and>
      name (snd (nextProposal self)) = name self \<and>
      priorities (snd (nextProposal self)) = priorities self \<and>
      partner (snd (nextProposal self)) = partner self \<and>
      rank (snd (nextProposal self)) = rank self) \<and>
   (length (priorities self) \<le> proposalIndex self \<longrightarrow>
      nextProposal self = (None, self))"
  by (simp add: nextProposal_def)

theorem nextProposal_result_witness:
  "fst (nextProposal (Proposer ''A'' [''X'', ''Y''])) = Some ''X'' \<and>
   proposalIndex (snd (nextProposal (Proposer ''A'' [''X'', ''Y'']))) = 1 \<and>
   nextProposal (Proposer ''A'' []) = (None, Proposer ''A'' [])"
  using nextProposal_result [of "Proposer ''A'' [''X'', ''Y'']"]
        nextProposal_result [of "Proposer ''A'' []"]
  by (simp add: Proposer_def)

text \<open>
  C3 as stated fails on an exhausted proposer: the call returns \<open>None\<close> and the cursor
  is not advanced.
\<close>

theorem nextProposal_exhausted_counterexample:
  "fst (nextProposal (Proposer ''A'' [])) = None \<and>
   proposalIndex (snd (nextProposal (Proposer ''A'' []))) \<noteq>
     proposalIndex (Proposer ''A'' []) + 1"
  by (simp add: nextProposal_def Proposer_def)

text \<open>
  C5, as amended. \<open>evaluateProposal\<close> returns false, and changes nothing, for a suitor
  that is not in the \<open>ranking\<close>. For a proposee whose partner, if it has one, is in its
  \<open>ranking\<close> (which holds at every state the engine reaches, see
  \<open>reachable_partner_ranked\<close>), the call returns; for a suitor in the
  \<open>ranking\<close> it returns true exactly when the proposee has no partner or the suitor's
  index is strictly lower than the partner's; on acceptance the only change is that
  \<open>rank\<close> becomes the suitor's index plus one, on rejection nothing changes, and
  \<open>partner\<close> is the same in both cases.
\<close>

theorem evaluateProposal_result:
  "(map_of (ranking self) suitor = None \<longrightarrow>
      evaluateProposal self suitor = Inr (False, self)) \<and>
   ((\<forall>p. partner self = Some p \<longrightarrow> map_of (ranking self) p \<noteq> None) \<longrightarrow>
      (\<exists>b self'. evaluateProposal self suitor = Inr (b, self') \<and>
         (\<forall>rs. map_of (ranking self) suitor = Some rs \<longrightarrow>
            (b \<longleftrightarrow> partner self = None \<or>
               (\<exists>p rp. partner self = Some p \<and> map_of (ranking self) p = Some rp \<and> rs < rp)) \<and>
            (b \<longrightarrow> self' = self\<lparr>rank := Some (rs + 1)\<rparr>)) \<and>
         (\<not> b \<longrightarrow> self' = self) \<and>
         partner self' = partner self))"
  by (auto simp: evaluateProposal_def split: option.splits)

theorem evaluateProposal_result_witness:
  "evaluateProposal (Proposee ''X'' [''B'', ''A'']) ''C'' = Inr (False, Proposee ''X'' [''B'', ''A'']) \<and>
   evaluateProposal ((Proposee ''X'' [''B'', ''A''])\<lparr>partner := Some ''A'', rank := Some 2\<rparr>) ''B'' =
     Inr (True, (Proposee ''X'' [''B'', ''A''])\<lparr>partner := Some ''A'', rank := Some 1\<rparr>)"
proof -
  let ?x = "Proposee ''X'' [''B'', ''A'']"
  let ?y = "?x\<lparr>partner := Some ''A'', rank := Some 2\<rparr>"
  have rk: "ranking ?x = [(''B'', 0), (''A'', 1)]" "ranking ?y = [(''B'', 0), (''A'', 1)]"
    by (simp_all add: Proposee_def mk_ranking_def upt_rec)
  have h1: "map_of (ranking ?x) ''C'' = None" by (simp add: rk)
  have h2: "\<forall>p. partner ?y = Some p \<longrightarrow> map_of (ranking ?y) p \<noteq> None" by (simp add: rk)
  have h3: "map_of (ranking ?y) ''B'' = Some 0" by (simp add: rk)
  from evaluateProposal_result [of ?x "''C''"] h1 have c1: "evaluateProposal ?x ''C'' = Inr (False, ?x)"
    by blast
  from evaluateProposal_result [of ?y "''B''"] h2 obtain b self' where
    r: "evaluateProposal ?y ''B'' = Inr (b, self')"
      "\<forall>rs. map_of (ranking ?y) ''B'' = Some rs \<longrightarrow>
            (b \<longleftrightarrow> partner ?y = None \<or>
               (\<exists>p rp. partner ?y = Some p \<and> map_of (ranking ?y) p = Some rp \<and> rs < rp)) \<and>
            (b \<longrightarrow> self' = ?y\<lparr>rank := Some (rs + 1)\<rparr>)"
      "partner self' = partner ?y"
    by blast
  from r(2) h3 have b: "b \<longleftrightarrow> partner ?y = None \<or>
      (\<exists>p rp. partner ?y = Some p \<and> map_of (ranking ?y) p = Some rp \<and> 0 < rp)"
     and s: "b \<longrightarrow> self' = ?y\<lparr>rank := Some (0 + 1)\<rparr>" by blast+
  have "map_of (ranking ?y) ''A'' = Some 1" by (simp add: rk)
  then have "b" using b by simp
  with s r(1,3) c1 show ?thesis by simp
qed

text \<open>
  Outside that condition the comparison has no partner index to read: the lookup raises.
\<close>

lemma evaluateProposal_unranked_partner:
  "map_of (ranking self) suitor = Some rs \<Longrightarrow> partner self = Some p \<Longrightarrow>
   map_of (ranking self) p = None \<Longrightarrow> evaluateProposal self suitor = Inl KeyError"
  by (simp add: evaluateProposal_def)

text \<open>
  C5 as stated, for every proposee state, fails: a proposee whose partner is not in its
  \<open>ranking\<close> raises \<open>KeyError\<close> on a suitor that is, instead of returning.
\<close>

theorem evaluateProposal_unranked_counterexample:
  "map_of (ranking ((Proposee ''X'' [''B'', ''A''])\<lparr>partner := Some ''Z''\<rparr>)) ''B'' = Some 0 \<and>
   map_of (ranking ((Proposee ''X'' [''B'', ''A''])\<lparr>partner := Some ''Z''\<rparr>)) ''Z'' = None \<and>
   evaluateProposal ((Proposee ''X'' [''B'', ''A''])\<lparr>partner := Some ''Z''\<rparr>) ''B'' = Inl KeyError"
  by (simp add: evaluateProposal_def Proposee_def mk_ranking_def upt_rec)

section \<open>Properties of the loop body\<close>

lemma mk_ranking_fold_Some:
  "n \<le> length prios \<Longrightarrow>
   map_of (fold (\<lambda>r d. AList.update (prios ! r) r d) [0..<n] []) k = Some i \<Longrightarrow>
   i < n \<and> prios ! i = k"
proof (induction n arbitrary: i)
  case 0
  then show ?case by simp
next
  case (Suc n)
  let ?d = "fold (\<lambda>r d. AList.update (prios ! r) r d) [0..<n] []"
  from Suc.prems(2) have upd: "((map_of ?d)(prios ! n \<mapsto> n)) k = Some i"
    by (simp add: update_conv')
  show ?case
  proof (cases "k = prios ! n")
    case True
    with upd show ?thesis by simp
  next
    case False
    with upd have "map_of ?d k = Some i" by simp
    with Suc.IH Suc.prems(1) have "i < n \<and> prios ! i = k" by simp
    then show ?thesis by simp
  qed
qed

lemma mk_ranking_fold_dom:
  "n \<le> length prios \<Longrightarrow>
   dom (map_of (fold (\<lambda>r d. AList.update (prios ! r) r d) [0..<n] [])) = set (take n prios)"
proof (induction n)
  case 0
  then show ?case by simp
next
  case (Suc n)
  let ?d = "fold (\<lambda>r d. AList.update (prios ! r) r d) [0..<n] []"
  have "dom (map_of (fold (\<lambda>r d. AList.update (prios ! r) r d) [0..<Suc n] [])) =
        dom ((map_of ?d)(prios ! n \<mapsto> n))"
    by (simp add: update_conv')
  also have "\<dots> = insert (prios ! n) (dom (map_of ?d))" by simp
  also have "\<dots> = set (take (Suc n) prios)"
    using Suc by (simp add: take_Suc_conv_app_nth)
  finally show ?case .
qed

lemma mk_ranking_Some:
  "map_of (mk_ranking prios) k = Some i \<Longrightarrow> i < length prios \<and> prios ! i = k"
  unfolding mk_ranking_def by (rule mk_ranking_fold_Some [OF le_refl])

lemma mk_ranking_dom: "dom (map_of (mk_ranking prios)) = set prios"
  unfolding mk_ranking_def using mk_ranking_fold_dom [of "length prios" prios] by simp

lemma mk_ranking_fold_last:
  "n \<le> length prios \<Longrightarrow>
   map_of (fold (\<lambda>r d. AList.update (prios ! r) r d) [0..<n] []) k = Some i \<Longrightarrow>
   j < n \<Longrightarrow> prios ! j = k \<Longrightarrow> j \<le> i"
proof (induction n arbitrary: i)
  case 0
  then show ?case by simp
next
  case (Suc n)
  let ?d = "fold (\<lambda>r d. AList.update (prios ! r) r d) [0..<n] []"
  from Suc.prems(2) have upd: "((map_of ?d)(prios ! n \<mapsto> n)) k = Some i"
    by (simp add: update_conv')
  show ?case
  proof (cases "k = prios ! n")
    case True
    with upd have "i = n" by simp
    with Suc.prems(3) show ?thesis by simp
  next
    case False
    with upd have d: "map_of ?d k = Some i" by simp
    from False Suc.prems(3,4) have "j < n" by (cases "j = n") auto
    with Suc.IH [OF _ d _ Suc.prems(4)] Suc.prems(1) show ?thesis by simp
  qed
qed

lemma mk_ranking_last:
  "map_of (mk_ranking prios) k = Some i \<Longrightarrow> j < length prios \<Longrightarrow> prios ! j = k \<Longrightarrow> j \<le> i"
  unfolding mk_ranking_def by (rule mk_ranking_fold_last [OF le_refl])

lemma loopBody_cases [consumes 1, case_names Exhausted Rejected Accepted Displaced]:
  assumes "loopBody ev s = Inr (out, s')"
  obtains
    u us m where
      "unmatched s = u # us" "map_of (proposerPref s) u = Some m"
      "length (priorities m) \<le> proposalIndex m"
      "out = NoMoreOptions (name m)" "s' = s\<lparr>unmatched := us\<rparr>"
  | u us m who0 who where
      "unmatched s = u # us" "map_of (proposerPref s) u = Some m"
      "proposalIndex m < length (priorities m)"
      "map_of (proposees s) (priorities m ! proposalIndex m) = Some who0"
      "ev who0 (name m) = Inr (False, who)"
      "out = Rejects (name m) (name who)"
      "s' = s\<lparr>proposerPref := AList.update u (m\<lparr>proposalIndex := proposalIndex m + 1\<rparr>) (proposerPref s),
              proposees := AList.update (priorities m ! proposalIndex m) who (proposees s)\<rparr>"
  | u us m who0 who where
      "unmatched s = u # us" "map_of (proposerPref s) u = Some m"
      "proposalIndex m < length (priorities m)"
      "map_of (proposees s) (priorities m ! proposalIndex m) = Some who0"
      "ev who0 (name m) = Inr (True, who)"
      "partner who = None \<or> partner who = Some []"
      "out = Accepts (name m) (name who) None"
      "s' = \<lparr>proposerPref =
               AList.map_entry u
                 (\<lambda>m'. m'\<lparr>partner := Some (name who), rank := Some (proposalIndex m')\<rparr>)
                 (AList.update u (m\<lparr>proposalIndex := proposalIndex m + 1\<rparr>) (proposerPref s)),
             unmatched = us,
             proposees = AList.update (priorities m ! proposalIndex m)
                           (who\<lparr>partner := Some (name m)\<rparr>) (proposees s)\<rparr>"
  | u us m who0 who old mOld where
      "unmatched s = u # us" "map_of (proposerPref s) u = Some m"
      "proposalIndex m < length (priorities m)"
      "map_of (proposees s) (priorities m ! proposalIndex m) = Some who0"
      "ev who0 (name m) = Inr (True, who)"
      "partner who = Some old" "old \<noteq> []"
      "map_of (AList.update u (m\<lparr>proposalIndex := proposalIndex m + 1\<rparr>) (proposerPref s)) old
         = Some mOld"
      "out = Accepts (name m) (name who) (Some (name mOld))"
      "s' = \<lparr>proposerPref =
               AList.map_entry u
                 (\<lambda>m'. m'\<lparr>partner := Some (name who), rank := Some (proposalIndex m')\<rparr>)
                 (AList.update old (mOld\<lparr>partner := None, rank := Some 0\<rparr>)
                    (AList.update u (m\<lparr>proposalIndex := proposalIndex m + 1\<rparr>) (proposerPref s))),
             unmatched = us @ [name mOld],
             proposees = AList.update (priorities m ! proposalIndex m)
                           (who\<lparr>partner := Some (name m)\<rparr>) (proposees s)\<rparr>"
  using assms
  unfolding loopBody_def nextProposal_def Let_def
  by (auto split: list.splits option.splits sum.splits prod.splits bool.splits if_splits)

lemma sum_list_update:
  "map_of al k = Some v \<Longrightarrow>
   sum_list (map (\<lambda>(k, m). g m) (AList.update k v' al)) + g v =
   sum_list (map (\<lambda>(k, m). g m) al) + (g v' :: nat)"
  by (induction al) (auto split: if_splits)

lemma sum_list_map_entry:
  "map_of al k = Some v \<Longrightarrow>
   sum_list (map (\<lambda>(k, m). g m) (AList.map_entry k f al)) + g v =
   sum_list (map (\<lambda>(k, m). g m) al) + (g (f v) :: nat)"
  by (induction al) (auto split: if_splits)

lemma remaining_decreases:
  assumes "loopBody ev s = Inr (out, s')"
  shows "remaining s' < remaining s"
  using assms
proof (cases rule: loopBody_cases)
  case (Exhausted u us m)
  then show ?thesis by (simp add: remaining_def)
next
  case (Rejected u us m who0 who)
  from sum_list_update [OF Rejected(2), of todo "m\<lparr>proposalIndex := proposalIndex m + 1\<rparr>"]
    Rejected(3)
  show ?thesis
    unfolding Rejected(7) remaining_def todo_def by simp
next
  case (Accepted u us m who0 who)
  let ?m1 = "m\<lparr>proposalIndex := proposalIndex m + 1\<rparr>"
  let ?pp1 = "AList.update u ?m1 (proposerPref s)"
  have l1: "map_of ?pp1 u = Some ?m1" by (simp add: update_conv')
  from sum_list_update [OF Accepted(2), of todo ?m1]
    sum_list_map_entry [OF l1, of todo
       "\<lambda>m'. m'\<lparr>partner := Some (name who), rank := Some (proposalIndex m')\<rparr>"]
    Accepted(3)
  show ?thesis
    unfolding Accepted(8) remaining_def todo_def Accepted(1) by simp
next
  case (Displaced u us m who0 who old mOld)
  let ?m1 = "m\<lparr>proposalIndex := proposalIndex m + 1\<rparr>"
  let ?pp1 = "AList.update u ?m1 (proposerPref s)"
  let ?o1 = "mOld\<lparr>partner := None, rank := Some 0\<rparr>"
  let ?pp2 = "AList.update old ?o1 ?pp1"
  let ?f = "\<lambda>m'. m'\<lparr>partner := Some (name who), rank := Some (proposalIndex m')\<rparr>"
  obtain m2 where l2: "map_of ?pp2 u = Some m2"
    by (cases "old = u") (simp_all add: update_conv')
  from sum_list_update [OF Displaced(2), of todo ?m1]
    sum_list_update [OF Displaced(8), of todo ?o1]
    sum_list_map_entry [OF l2, of todo ?f]
    Displaced(3)
  show ?thesis
    unfolding Displaced(10) remaining_def todo_def Displaced(1) by simp
qed

termination matchLoop
proof (relation "measure (\<lambda>(ev, s). remaining s)")
  show "wf (measure (\<lambda>(ev, s). remaining s))" by simp
next
  fix evaluate s x2 x y
  assume "unmatched s \<noteq> []" "loopBody evaluate s = Inr x2" "(x, y) = x2"
  then have "loopBody evaluate s = Inr (x, y)" by simp
  then show "((evaluate, y), (evaluate, s)) \<in> measure (\<lambda>(ev, s). remaining s)"
    by (simp add: remaining_decreases)
qed

lemma policy_accept:
  assumes "ev = evaluateProposal \<or> ev = evaluateGreedily" and "ev w x = Inr (True, w')"
  obtains rs where "map_of (ranking w) x = Some rs" and "w' = w\<lparr>rank := Some (rs + 1)\<rparr>"
    and "partner w = None \<or>
         (ev = evaluateProposal \<and>
          (\<exists>p rp. partner w = Some p \<and> map_of (ranking w) p = Some rp \<and> rs < rp))"
  using assms
  by (auto simp: evaluateProposal_def evaluateGreedily_def
           split: option.splits if_splits)

lemma policy_reject:
  assumes "ev = evaluateProposal \<or> ev = evaluateGreedily" and "ev w x = Inr (False, w')"
  shows "w' = w"
  using assms
  by (auto simp: evaluateProposal_def evaluateGreedily_def
           split: option.splits if_splits)

lemma policy_returns:
  assumes "ev = evaluateProposal \<or> ev = evaluateGreedily"
    and "\<forall>p. partner w = Some p \<longrightarrow> map_of (ranking w) p \<noteq> None"
  shows "\<exists>b w'. ev w x = Inr (b, w')"
  using assms
  by (auto simp: evaluateProposal_def evaluateGreedily_def
           split: option.splits if_splits)

lemma loopBody_step [consumes 3, case_names Exhausted Rejected Accepted Displaced]:
  assumes body: "loopBody ev s = Inr (out, s')"
    and pol: "ev = evaluateProposal \<or> ev = evaluateGreedily"
    and inv: "engine_inv s"
  obtains
    u us m where
      "unmatched s = u # us" "map_of (proposerPref s) u = Some m" "partner m = None"
      "length (priorities m) \<le> proposalIndex m"
      "out = NoMoreOptions u"
      "proposerPref s' = proposerPref s" "proposees s' = proposees s" "unmatched s' = us"
  | u us m n w where
      "unmatched s = u # us" "map_of (proposerPref s) u = Some m" "partner m = None"
      "proposalIndex m < length (priorities m)" "n = priorities m ! proposalIndex m"
      "map_of (proposees s) n = Some w" "ev w u = Inr (False, w)"
      "out = Rejects u n"
      "map_of (proposerPref s') =
         (map_of (proposerPref s))(u \<mapsto> m\<lparr>proposalIndex := proposalIndex m + 1\<rparr>)"
      "map_of (proposees s') = map_of (proposees s)" "unmatched s' = u # us"
  | u us m n w rs where
      "unmatched s = u # us" "map_of (proposerPref s) u = Some m" "partner m = None"
      "proposalIndex m < length (priorities m)" "n = priorities m ! proposalIndex m"
      "map_of (proposees s) n = Some w" "map_of (ranking w) u = Some rs"
      "partner w = None \<or>
         (ev = evaluateProposal \<and> partner w = Some [] \<and>
          (\<exists>rp. map_of (ranking w) [] = Some rp \<and> rs < rp))"
      "out = Accepts u n None"
      "map_of (proposerPref s') =
         (map_of (proposerPref s))(u \<mapsto> m\<lparr>proposalIndex := proposalIndex m + 1,
            partner := Some n, rank := Some (proposalIndex m + 1)\<rparr>)"
      "map_of (proposees s') =
         (map_of (proposees s))(n \<mapsto> w\<lparr>rank := Some (rs + 1), partner := Some u\<rparr>)"
      "unmatched s' = us"
  | u us m n w rs old mOld rp where
      "unmatched s = u # us" "map_of (proposerPref s) u = Some m" "partner m = None"
      "proposalIndex m < length (priorities m)" "n = priorities m ! proposalIndex m"
      "map_of (proposees s) n = Some w" "map_of (ranking w) u = Some rs"
      "ev = evaluateProposal"
      "partner w = Some old" "old \<noteq> []" "old \<noteq> u"
      "map_of (proposerPref s) old = Some mOld" "partner mOld = Some n"
      "map_of (ranking w) old = Some rp" "rs < rp"
      "out = Accepts u n (Some old)"
      "map_of (proposerPref s') =
         (map_of (proposerPref s))(old \<mapsto> mOld\<lparr>partner := None, rank := Some 0\<rparr>,
            u \<mapsto> m\<lparr>proposalIndex := proposalIndex m + 1,
            partner := Some n, rank := Some (proposalIndex m + 1)\<rparr>)"
      "map_of (proposees s') =
         (map_of (proposees s))(n \<mapsto> w\<lparr>rank := Some (rs + 1), partner := Some u\<rparr>)"
      "unmatched s' = us @ [old]"
  using body
proof (cases rule: loopBody_cases)
  case (Exhausted u us m)
  from inv Exhausted(1,2) have "partner m = None" "name m = u"
    by (auto simp: engine_inv_def unmatched_ok_def names_ok_def)
  with Exhausted show ?thesis by (intro that(1) [of u us m]) simp_all
next
  case (Rejected u us m who0 who)
  from inv Rejected(1,2) have m: "partner m = None" "name m = u"
    by (auto simp: engine_inv_def unmatched_ok_def names_ok_def)
  from policy_reject [OF pol Rejected(5)] have who: "who = who0" .
  from inv Rejected(4) have nm: "name who0 = priorities m ! proposalIndex m"
    by (auto simp: engine_inv_def names_ok_def)
  show ?thesis
  proof (rule that(2) [of u us m "priorities m ! proposalIndex m" who0])
    show "map_of (proposees s') = map_of (proposees s)"
      using Rejected(4) unfolding Rejected(7) who by (simp add: update_conv' fun_upd_idem)
  qed (use Rejected m who nm in \<open>simp_all add: update_conv'\<close>)
next
  case (Accepted u us m who0 who)
  from inv Accepted(1,2) have m: "partner m = None" "name m = u"
    by (auto simp: engine_inv_def unmatched_ok_def names_ok_def)
  from inv Accepted(4) have nm: "name who0 = priorities m ! proposalIndex m"
    by (auto simp: engine_inv_def names_ok_def)
  from policy_accept [OF pol Accepted(5)] obtain rs where
    rs: "map_of (ranking who0) (name m) = Some rs" "who = who0\<lparr>rank := Some (rs + 1)\<rparr>"
      "partner who0 = None \<or>
         (ev = evaluateProposal \<and>
          (\<exists>p rp. partner who0 = Some p \<and> map_of (ranking who0) p = Some rp \<and> rs < rp))"
    by blast
  show ?thesis
  proof (rule that(3) [of u us m "priorities m ! proposalIndex m" who0 rs])
    show "partner who0 = None \<or>
         (ev = evaluateProposal \<and> partner who0 = Some [] \<and>
          (\<exists>rp. map_of (ranking who0) [] = Some rp \<and> rs < rp))"
      using Accepted(6) rs by auto
    show "map_of (proposerPref s') =
      (map_of (proposerPref s))(u \<mapsto> m\<lparr>proposalIndex := proposalIndex m + 1,
         partner := Some (priorities m ! proposalIndex m), rank := Some (proposalIndex m + 1)\<rparr>)"
      unfolding Accepted(8) using rs(2) nm
      by (simp add: update_conv' map_of_map_entry)
    show "map_of (proposees s') =
      (map_of (proposees s))(priorities m ! proposalIndex m \<mapsto>
         who0\<lparr>rank := Some (rs + 1), partner := Some u\<rparr>)"
      unfolding Accepted(8) using rs(2) m by (simp add: update_conv')
  qed (use Accepted m rs nm in \<open>simp_all\<close>)
next
  case (Displaced u us m who0 who old mOld)
  from inv Displaced(1,2) have m: "partner m = None" "name m = u"
    by (auto simp: engine_inv_def unmatched_ok_def names_ok_def)
  from inv Displaced(4) have nm: "name who0 = priorities m ! proposalIndex m"
    by (auto simp: engine_inv_def names_ok_def)
  from policy_accept [OF pol Displaced(5)] obtain rs where
    rs: "map_of (ranking who0) (name m) = Some rs" "who = who0\<lparr>rank := Some (rs + 1)\<rparr>"
      "partner who0 = None \<or>
         (ev = evaluateProposal \<and>
          (\<exists>p rp. partner who0 = Some p \<and> map_of (ranking who0) p = Some rp \<and> rs < rp))"
    by blast
  from Displaced(6) rs(2) have pw: "partner who0 = Some old" by simp
  with rs(3) obtain rp where rp: "ev = evaluateProposal" "map_of (ranking who0) old = Some rp" "rs < rp"
    by auto
  from inv Displaced(4) pw obtain mo where
    mo: "map_of (proposerPref s) old = Some mo" "partner mo = Some (priorities m ! proposalIndex m)"
    unfolding engine_inv_def partners_back_def by blast
  from mo m Displaced(2) have neq: "old \<noteq> u" by auto
  with Displaced(8) mo have mOld: "mOld = mo" by (simp add: update_conv')
  from inv mo have nmo: "name mo = old" by (auto simp: engine_inv_def names_ok_def)
  show ?thesis
  proof (rule that(4) [of u us m "priorities m ! proposalIndex m" who0 rs old mo rp])
    show "map_of (proposerPref s') =
      (map_of (proposerPref s))(old \<mapsto> mo\<lparr>partner := None, rank := Some 0\<rparr>,
         u \<mapsto> m\<lparr>proposalIndex := proposalIndex m + 1,
         partner := Some (priorities m ! proposalIndex m), rank := Some (proposalIndex m + 1)\<rparr>)"
      unfolding Displaced(10) mOld using rs(2) nm neq
      by (simp add: update_conv' map_of_map_entry)
    show "map_of (proposees s') =
      (map_of (proposees s))(priorities m ! proposalIndex m \<mapsto>
         who0\<lparr>rank := Some (rs + 1), partner := Some u\<rparr>)"
      unfolding Displaced(10) using rs(2) m by (simp add: update_conv')
  qed (use Displaced m rs nm pw rp mo neq nmo mOld in \<open>simp_all\<close>)
qed

lemma names_ok_step:
  assumes "loopBody ev s = Inr (out, s')" "ev = evaluateProposal \<or> ev = evaluateGreedily"
    "engine_inv s"
  shows "names_ok s'"
  using assms
proof (cases rule: loopBody_step)
  case (Exhausted u us m)
  with assms(3) show ?thesis by (simp add: engine_inv_def names_ok_def)
next
  case (Rejected u us m n w)
  with assms(3) show ?thesis by (auto simp: engine_inv_def names_ok_def)
next
  case (Accepted u us m n w rs)
  with assms(3) show ?thesis by (auto simp: engine_inv_def names_ok_def)
next
  case (Displaced u us m n w rs old mOld rp)
  with assms(3) show ?thesis by (auto simp: engine_inv_def names_ok_def)
qed

lemma unmatched_ok_step:
  assumes "loopBody ev s = Inr (out, s')" "ev = evaluateProposal \<or> ev = evaluateGreedily"
    "engine_inv s"
  shows "unmatched_ok s'"
  using assms
proof (cases rule: loopBody_step)
  case (Exhausted u us m)
  with assms(3) show ?thesis by (auto simp: engine_inv_def unmatched_ok_def)
next
  case (Rejected u us m n w)
  with assms(3) show ?thesis by (auto simp: engine_inv_def unmatched_ok_def)
next
  case (Accepted u us m n w rs)
  with assms(3) show ?thesis by (auto simp: engine_inv_def unmatched_ok_def)
next
  case (Displaced u us m n w rs old mOld rp)
  from assms(3) have um: "unmatched_ok s" by (simp add: engine_inv_def)
  from um Displaced(1,12,13) have "old \<notin> set us" 
    by (auto simp: unmatched_ok_def)
  with um Displaced show ?thesis by (auto simp: unmatched_ok_def)
qed

lemma partners_back_step:
  assumes "loopBody ev s = Inr (out, s')" "ev = evaluateProposal \<or> ev = evaluateGreedily"
    "engine_inv s"
  shows "partners_back s'"
  using assms
proof (cases rule: loopBody_step)
  case (Exhausted u us m)
  with assms(3) show ?thesis unfolding engine_inv_def partners_back_def by auto
next
  case (Rejected u us m n w)
  from assms(3) have pb: "partners_back s" by (simp add: engine_inv_def)
  show ?thesis
    unfolding partners_back_def
  proof (intro allI impI, elim conjE)
    fix r w' p
    assume "map_of (proposees s') r = Some w'" and a2: "partner w' = Some p"
    then have a: "map_of (proposees s) r = Some w'" by (simp add: Rejected(10))
    with pb a2 obtain m' i where m': "map_of (proposerPref s) p = Some m'" "partner m' = Some r"
      "map_of (ranking w') p = Some i" "rank w' = Some (i + 1)"
      unfolding partners_back_def by blast
    with Rejected(2,3) have "p \<noteq> u" by auto
    with m' show "(\<exists>m. map_of (proposerPref s') p = Some m \<and> partner m = Some r) \<and>
       (\<exists>i. map_of (ranking w') p = Some i \<and> rank w' = Some (i + 1))"
      by (simp add: Rejected(9))
  qed
next
  case (Accepted u us m n w rs)
  from assms(3) have pb: "partners_back s" by (simp add: engine_inv_def)
  show ?thesis
    unfolding partners_back_def
  proof (intro allI impI, elim conjE)
    fix r w' p
    assume a1: "map_of (proposees s') r = Some w'" and a2: "partner w' = Some p"
    show "(\<exists>m. map_of (proposerPref s') p = Some m \<and> partner m = Some r) \<and>
       (\<exists>i. map_of (ranking w') p = Some i \<and> rank w' = Some (i + 1))"
    proof (cases "r = n")
      case True
      with a1 a2 Accepted(7) show ?thesis by (auto simp: Accepted(10,11))
    next
      case False
      with a1 have a: "map_of (proposees s) r = Some w'" by (simp add: Accepted(11))
      with pb a2 obtain m' i where m': "map_of (proposerPref s) p = Some m'" "partner m' = Some r"
        "map_of (ranking w') p = Some i" "rank w' = Some (i + 1)"
        unfolding partners_back_def by blast
      with Accepted(2,3) have "p \<noteq> u" by auto
      with m' show ?thesis by (simp add: Accepted(10))
    qed
  qed
next
  case (Displaced u us m n w rs old mOld rp)
  from assms(3) have pb: "partners_back s" by (simp add: engine_inv_def)
  show ?thesis
    unfolding partners_back_def
  proof (intro allI impI, elim conjE)
    fix r w' p
    assume a1: "map_of (proposees s') r = Some w'" and a2: "partner w' = Some p"
    show "(\<exists>m. map_of (proposerPref s') p = Some m \<and> partner m = Some r) \<and>
       (\<exists>i. map_of (ranking w') p = Some i \<and> rank w' = Some (i + 1))"
    proof (cases "r = n")
      case True
      with a1 a2 Displaced(7) show ?thesis by (auto simp: Displaced(17,18))
    next
      case False
      with a1 have a: "map_of (proposees s) r = Some w'" by (simp add: Displaced(18))
      with pb a2 obtain m' i where m': "map_of (proposerPref s) p = Some m'" "partner m' = Some r"
        "map_of (ranking w') p = Some i" "rank w' = Some (i + 1)"
        unfolding partners_back_def by blast
      with Displaced(2,3) have "p \<noteq> u" by auto
      moreover from m' Displaced(12,13) False have "p \<noteq> old" by auto
      ultimately show ?thesis using m' by (simp add: Displaced(17))
    qed
  qed
qed

lemma cursor_ok_step:
  assumes "loopBody ev s = Inr (out, s')" "ev = evaluateProposal \<or> ev = evaluateGreedily"
    "engine_inv s"
  shows "cursor_ok s'"
  using assms
proof (cases rule: loopBody_step)
  case (Exhausted u us m)
  with assms(3) show ?thesis by (simp add: engine_inv_def cursor_ok_def)
next
  case (Rejected u us m n w)
  with assms(3) show ?thesis by (auto simp: engine_inv_def cursor_ok_def)
next
  case (Accepted u us m n w rs)
  with assms(3) show ?thesis by (auto simp: engine_inv_def cursor_ok_def)
next
  case (Displaced u us m n w rs old mOld rp)
  with assms(3) show ?thesis by (auto simp: engine_inv_def cursor_ok_def)
qed

lemma engine_inv_step:
  assumes "loopBody ev s = Inr (out, s')" "ev = evaluateProposal \<or> ev = evaluateGreedily"
    "engine_inv s"
  shows "engine_inv s'"
  unfolding engine_inv_def
  using names_ok_step [OF assms] unmatched_ok_step [OF assms] partners_back_step [OF assms]
    cursor_ok_step [OF assms]
  by simp

lemma dict_fold_Some:
  "map_of (fold (\<lambda>(person, priority) d. AList.update person (f person priority) d) l d0) k = Some v \<Longrightarrow>
   map_of d0 k = Some v \<or> (\<exists>pr. (k, pr) \<in> set l \<and> v = f k pr)"
proof (induction l arbitrary: d0)
  case Nil
  then show ?case by simp
next
  case (Cons a l)
  obtain person priority where a: "a = (person, priority)" by (cases a)
  from Cons.prems have
    "map_of (fold (\<lambda>(person, priority) d. AList.update person (f person priority) d) l
       (AList.update person (f person priority) d0)) k = Some v"
    by (simp add: a)
  from Cons.IH [OF this] show ?case
    by (auto simp: a update_conv' split: if_splits)
qed

lemma dict_fold_distinct:
  "distinct (map fst d0) \<Longrightarrow>
   distinct (map fst (fold (\<lambda>(person, priority) d. AList.update person (f person priority) d) l d0))"
  by (induction l arbitrary: d0) (auto simp: distinct_update)

lemma dict_fold_keys:
  "fst ` set (fold (\<lambda>(person, priority) d. AList.update person (f person priority) d) l d0) =
   fst ` set d0 \<union> fst ` set l"
proof (induction l arbitrary: d0)
  case Nil
  then show ?case by simp
next
  case (Cons a l)
  obtain person priority where a: "a = (person, priority)" by (cases a)
  have "fst ` set (fold (\<lambda>(person, priority) d. AList.update person (f person priority) d) (a # l) d0) =
        fst ` set (AList.update person (f person priority) d0) \<union> fst ` set l"
    using Cons.IH [of "AList.update person (f person priority) d0"] by (simp add: a)
  also have "\<dots> = ({person} \<union> fst ` set d0) \<union> fst ` set l"
    by (simp only: dom_update)
  also have "\<dots> = fst ` set d0 \<union> fst ` set (a # l)"
    by (auto simp: a)
  finally show ?case .
qed

lemma initState_proposer:
  assumes "map_of (proposerPref (initState pl ql)) k = Some m"
  shows "\<exists>pr. (k, pr) \<in> set pl \<and> m = Proposer k pr"
  using dict_fold_Some [of Proposer pl "[]" k m] assms
  by (simp add: initState_def Let_def)

lemma initState_proposee:
  assumes "map_of (proposees (initState pl ql)) k = Some w"
  shows "\<exists>pr. (k, pr) \<in> set ql \<and> w = Proposee k pr"
  using dict_fold_Some [of Proposee ql "[]" k w] assms
  by (simp add: initState_def Let_def)

lemma initState_unmatched:
  "unmatched (initState pl ql) = map fst (proposerPref (initState pl ql))"
  by (simp add: initState_def Let_def)

lemma initState_distinct: "distinct (map fst (proposerPref (initState pl ql)))"
  using dict_fold_distinct [of "[]" Proposer pl]
  by (simp add: initState_def Let_def)

lemma engine_inv_initState: "engine_inv (initState pl ql)"
proof -
  have "names_ok (initState pl ql)"
    unfolding names_ok_def
    by (auto dest!: initState_proposer initState_proposee simp: Proposer_def Proposee_def)
  moreover have "unmatched_ok (initState pl ql)"
    unfolding unmatched_ok_def
  proof (intro conjI ballI)
    show "distinct (unmatched (initState pl ql))"
      by (simp add: initState_unmatched initState_distinct)
  next
    fix u assume "u \<in> set (unmatched (initState pl ql))"
    then have "u \<in> fst ` set (proposerPref (initState pl ql))"
      by (simp add: initState_unmatched)
    then obtain m where m: "map_of (proposerPref (initState pl ql)) u = Some m"
      by (auto dest: weak_map_of_SomeI)
    from initState_proposer [OF m] have "partner m = None" by (auto simp: Proposer_def)
    with m show "\<exists>m. map_of (proposerPref (initState pl ql)) u = Some m \<and> partner m = None"
      by blast
  qed
  moreover have "partners_back (initState pl ql)"
    unfolding partners_back_def
    by (auto dest!: initState_proposee simp: Proposee_def)
  moreover have "cursor_ok (initState pl ql)"
    unfolding cursor_ok_def
    by (auto dest!: initState_proposer simp: Proposer_def)
  ultimately show ?thesis by (simp add: engine_inv_def)
qed

lemma engine_inv_loopIter:
  assumes "ev = evaluateProposal \<or> ev = evaluateGreedily"
  shows "engine_inv s \<Longrightarrow> loopIter ev k s = Inr s' \<Longrightarrow> engine_inv s'"
proof (induction k arbitrary: s)
  case 0
  then show ?case by simp
next
  case (Suc k)
  show ?case
  proof (cases "unmatched s = []")
    case True
    with Suc.prems show ?thesis by simp
  next
    case False
    with Suc.prems(2) obtain out s1 where
      b: "loopBody ev s = Inr (out, s1)" and r: "loopIter ev k s1 = Inr s'"
      by (auto split: sum.splits)
    from engine_inv_step [OF b assms Suc.prems(1)] r show ?thesis by (rule Suc.IH)
  qed
qed

lemma loopIter_add:
  "loopIter ev (j + k) s = (case loopIter ev j s of Inl e \<Rightarrow> Inl e | Inr s1 \<Rightarrow> loopIter ev k s1)"
proof (induction j arbitrary: s)
  case 0
  then show ?case by simp
next
  case (Suc j)
  show ?case
  proof (cases "unmatched s = []")
    case True
    then have "loopIter ev k s = Inr s" by (cases k) simp_all
    with True show ?thesis by simp
  next
    case False
    with Suc.IH show ?thesis by (simp split: sum.splits)
  qed
qed

lemma matchLoop_loopIter:
  "matchLoop ev s = Inr s' \<Longrightarrow> \<exists>k. loopIter ev k s = Inr s' \<and> unmatched s' = []"
proof (induction ev s rule: matchLoop.induct)
  case (1 ev s)
  show ?case
  proof (cases "unmatched s = []")
    case True
    with "1.prems" have "s' = s" by simp
    with True have "loopIter ev 0 s = Inr s' \<and> unmatched s' = []" by simp
    then show ?thesis by blast
  next
    case False
    with "1.prems" obtain out s1 where
      b: "loopBody ev s = Inr (out, s1)" and r: "matchLoop ev s1 = Inr s'"
      by (auto split: sum.splits)
    from "1.IH" [OF False b refl r] obtain k where
      "loopIter ev k s1 = Inr s'" "unmatched s' = []" by blast
    with False b have "loopIter ev (Suc k) s = Inr s' \<and> unmatched s' = []" by simp
    then show ?thesis by blast
  qed
qed

lemma loopIter_matchLoop:
  "loopIter ev k s = Inr s' \<Longrightarrow> unmatched s' = [] \<Longrightarrow> matchLoop ev s = Inr s'"
proof (induction k arbitrary: s)
  case 0
  then show ?case by simp
next
  case (Suc k)
  show ?case
  proof (cases "unmatched s = []")
    case True
    with Suc.prems show ?thesis by simp
  next
    case False
    with Suc.prems(1) obtain out s1 where
      b: "loopBody ev s = Inr (out, s1)" and r: "loopIter ev k s1 = Inr s'"
      by (auto split: sum.splits)
    from Suc.IH [OF r Suc.prems(2)] False b show ?thesis by simp
  qed
qed

section \<open>Single iterations at a reachable state\<close>

lemma reachable_inv:
  assumes "ev = evaluateProposal \<or> ev = evaluateGreedily"
    and "loopIter ev k (initState pl ql) = Inr s"
  shows "engine_inv s"
  using engine_inv_loopIter [OF assms(1) engine_inv_initState assms(2)] .

lemma reachable_partner_ranked:
  assumes "ev = evaluateProposal \<or> ev = evaluateGreedily"
    and "loopIter ev k (initState pl ql) = Inr s"
    and "map_of (proposees s) r = Some w"
  shows "\<forall>p. partner w = Some p \<longrightarrow> map_of (ranking w) p \<noteq> None"
proof (intro allI impI)
  fix p assume "partner w = Some p"
  moreover from reachable_inv [OF assms(1,2)] have "partners_back s"
    by (simp add: engine_inv_def)
  ultimately obtain i where "map_of (ranking w) p = Some i"
    using assms(3) unfolding partners_back_def by blast
  then show "map_of (ranking w) p \<noteq> None" by simp
qed

lemma accept_step_ranks:
  assumes pol: "ev = evaluateProposal \<or> ev = evaluateGreedily"
    and inv: "engine_inv s"
    and body: "loopBody ev s = Inr (Accepts a b d, s')"
  shows "\<exists>m0 m w. map_of (proposerPref s) a = Some m0 \<and>
           map_of (proposerPref s') a = Some m \<and>
           proposalIndex m = proposalIndex m0 + 1 \<and>
           partner m = Some b \<and> rank m = Some (proposalIndex m) \<and>
           priorities m ! (proposalIndex m - 1) = b \<and>
           map_of (proposees s') b = Some w \<and> partner w = Some a \<and>
           (\<exists>i. i < length (priorities w) \<and> priorities w ! i = a \<and>
                map_of (ranking w) a = Some i \<and> rank w = Some (i + 1))"
  using body pol inv
proof (cases rule: loopBody_step)
  case (Exhausted u us m)
  then show ?thesis by simp
next
  case (Rejected u us m n w)
  then show ?thesis by simp
next
  case (Accepted u us m n w rs)
  from inv Accepted(6) have "ranking w = mk_ranking (priorities w)"
    by (auto simp: engine_inv_def names_ok_def)
  with Accepted(7) mk_ranking_Some [of "priorities w" u rs]
  have "rs < length (priorities w)" "priorities w ! rs = u" by simp_all
  with Accepted show ?thesis by simp
next
  case (Displaced u us m n w rs old mOld rp)
  from inv Displaced(6) have "ranking w = mk_ranking (priorities w)"
    by (auto simp: engine_inv_def names_ok_def)
  with Displaced(7) mk_ranking_Some [of "priorities w" u rs]
  have "rs < length (priorities w)" "priorities w ! rs = u" by simp_all
  with Displaced show ?thesis by simp
qed

lemma dump_step_clears:
  assumes pol: "ev = evaluateProposal \<or> ev = evaluateGreedily"
    and inv: "engine_inv s"
    and body: "loopBody ev s = Inr (Accepts a b (Some d), s')"
  shows "\<exists>m0 m. map_of (proposerPref s) d = Some m0 \<and> partner m0 = Some b \<and>
           map_of (proposerPref s') d = Some m \<and> partner m = None \<and> rank m = Some 0 \<and>
           unmatched s' = tl (unmatched s) @ [d]"
  using body pol inv
proof (cases rule: loopBody_step)
  case (Exhausted u us m)
  then show ?thesis by simp
next
  case (Rejected u us m n w)
  then show ?thesis by simp
next
  case (Accepted u us m n w rs)
  then show ?thesis by simp
next
  case (Displaced u us m n w rs old mOld rp)
  then show ?thesis by simp
qed

lemma stable_step_improves:
  assumes inv: "engine_inv s"
    and body: "loopBody evaluateProposal s = Inr (out, s')"
    and w: "map_of (proposees s) r = Some w" "partner w = Some p"
  shows "\<exists>w'. map_of (proposees s') r = Some w' \<and> priorities w' = priorities w \<and>
           (partner w' = Some p \<and> rank w' = rank w \<or>
            (\<exists>p' i j. partner w' = Some p' \<and> i < j \<and>
               j < length (priorities w) \<and>
               priorities w ! i = p' \<and> priorities w ! j = p \<and>
               map_of (ranking w) p' = Some i \<and> map_of (ranking w) p = Some j \<and>
               rank w' = Some (i + 1) \<and> rank w = Some (j + 1)))"
proof -
  from inv w have rk: "ranking w = mk_ranking (priorities w)"
    by (auto simp: engine_inv_def names_ok_def)
  from inv w obtain j where j: "map_of (ranking w) p = Some j" "rank w = Some (j + 1)"
    unfolding engine_inv_def partners_back_def by blast
  from j(1) rk mk_ranking_Some [of "priorities w" p j]
  have jl: "j < length (priorities w)" "priorities w ! j = p" by simp_all
  have pol: "evaluateProposal = evaluateProposal \<or> evaluateProposal = evaluateGreedily" by simp
  from body pol inv show ?thesis
  proof (cases rule: loopBody_step)
    case (Exhausted u us m)
    with w show ?thesis by simp
  next
    case (Rejected u us m n v)
    with w show ?thesis by simp
  next
    case (Accepted u us m n v rs)
    show ?thesis
    proof (cases "r = n")
      case False
      with Accepted w show ?thesis by simp
    next
      case True
      with Accepted(6) w have v: "v = w" by simp
      from Accepted(8) w(2) v j(1) have "rs < j" by auto
      moreover from Accepted(7) v rk mk_ranking_Some [of "priorities w" u rs]
      have "priorities w ! rs = u" by simp
      ultimately show ?thesis using Accepted(7,11) True v j jl by simp
    qed
  next
    case (Displaced u us m n v rs old mOld rp)
    show ?thesis
    proof (cases "r = n")
      case False
      with Displaced w show ?thesis by simp
    next
      case True
      with Displaced(6) w have v: "v = w" by simp
      from Displaced(9,14,15) w(2) v j(1) have "rs < j" by auto
      moreover from Displaced(7) v rk mk_ranking_Some [of "priorities w" u rs]
      have "priorities w ! rs = u" by simp
      ultimately show ?thesis using Displaced(7,18) True v j jl by simp
    qed
  qed
qed

lemma step_cursor_count:
  assumes pol: "ev = evaluateProposal \<or> ev = evaluateGreedily"
    and inv: "engine_inv s"
    and body: "loopBody ev s = Inr (out, s')"
    and m': "map_of (proposerPref s') p = Some m'"
  shows "\<exists>m. map_of (proposerPref s) p = Some m \<and>
           proposalIndex m' = proposalIndex m + proposalsBy p [out]"
  using body pol inv
proof (cases rule: loopBody_step)
  case (Exhausted u us m)
  with m' show ?thesis by simp
next
  case (Rejected u us m n w)
  with m' show ?thesis by (auto split: if_splits)
next
  case (Accepted u us m n w rs)
  with m' show ?thesis by (auto split: if_splits)
next
  case (Displaced u us m n w rs old mOld rp)
  with m' show ?thesis by (auto split: if_splits)
qed

lemma proposalsBy_Cons:
  "proposalsBy p (out # outs) = proposalsBy p [out] + proposalsBy p outs"
  by (cases out) simp_all

lemma proposalsBy_append:
  "proposalsBy p (xs @ ys) = proposalsBy p xs + proposalsBy p ys"
proof (induction xs)
  case Nil
  then show ?case by simp
next
  case (Cons x xs)
  then show ?case
    using proposalsBy_Cons [of p x "xs @ ys"] proposalsBy_Cons [of p x xs] by simp
qed

lemma run_cursor_count:
  assumes pol: "ev = evaluateProposal \<or> ev = evaluateGreedily"
  shows "engine_inv s \<Longrightarrow> loopIter ev k s = Inr s' \<Longrightarrow>
         map_of (proposerPref s') p = Some m' \<Longrightarrow>
         \<exists>m. map_of (proposerPref s) p = Some m \<and>
           proposalIndex m' = proposalIndex m + proposalsBy p (loopTrace ev k s)"
proof (induction k arbitrary: s)
  case 0
  then show ?case by simp
next
  case (Suc k)
  show ?case
  proof (cases "unmatched s = []")
    case True
    with Suc.prems show ?thesis by simp
  next
    case False
    with Suc.prems(2) obtain out s1 where
      b: "loopBody ev s = Inr (out, s1)" and r: "loopIter ev k s1 = Inr s'"
      by (auto split: sum.splits)
    from engine_inv_step [OF b pol Suc.prems(1)] have inv1: "engine_inv s1" .
    from Suc.IH [OF inv1 r Suc.prems(3)] obtain m1 where
      m1: "map_of (proposerPref s1) p = Some m1"
        "proposalIndex m' = proposalIndex m1 + proposalsBy p (loopTrace ev k s1)" by blast
    from step_cursor_count [OF pol Suc.prems(1) b m1(1)] obtain m where
      m: "map_of (proposerPref s) p = Some m"
        "proposalIndex m1 = proposalIndex m + proposalsBy p [out]" by blast
    have "loopTrace ev (Suc k) s = out # loopTrace ev k s1" using False b by simp
    with m m1(2) proposalsBy_Cons [of p out "loopTrace ev k s1"] show ?thesis by simp
  qed
qed

lemma initState_cursor_count:
  assumes pol: "ev = evaluateProposal \<or> ev = evaluateGreedily"
    and run: "loopIter ev k (initState pl ql) = Inr s"
    and m: "map_of (proposerPref s) p = Some m"
  shows "proposalIndex m = proposalsBy p (loopTrace ev k (initState pl ql))"
proof -
  from run_cursor_count [OF pol engine_inv_initState run m] obtain m0 where
    m0: "map_of (proposerPref (initState pl ql)) p = Some m0"
      "proposalIndex m = proposalIndex m0 + proposalsBy p (loopTrace ev k (initState pl ql))"
    by blast
  from initState_proposer [OF m0(1)] have "proposalIndex m0 = 0" by (auto simp: Proposer_def)
  with m0(2) show ?thesis by simp
qed

lemma stable_run_improves:
  "engine_inv s \<Longrightarrow> loopIter evaluateProposal k s = Inr s' \<Longrightarrow>
   map_of (proposees s) r = Some w \<Longrightarrow> partner w = Some p \<Longrightarrow>
   \<exists>w'. map_of (proposees s') r = Some w' \<and> priorities w' = priorities w \<and>
     ranking w' = ranking w \<and>
     (partner w' = Some p \<and> rank w' = rank w \<or>
      (\<exists>p' i j. partner w' = Some p' \<and> i < j \<and> j < length (priorities w) \<and>
         priorities w ! i = p' \<and> priorities w ! j = p \<and>
         map_of (ranking w) p' = Some i \<and> map_of (ranking w) p = Some j \<and>
         rank w' = Some (i + 1) \<and> rank w = Some (j + 1)))"
proof (induction k arbitrary: s w p)
  case 0
  then show ?case by simp
next
  case (Suc k)
  show ?case
  proof (cases "unmatched s = []")
    case True
    with Suc.prems show ?thesis by simp
  next
    case False
    with Suc.prems(2) obtain out s1 where
      b: "loopBody evaluateProposal s = Inr (out, s1)"
      and r: "loopIter evaluateProposal k s1 = Inr s'"
      by (auto split: sum.splits)
    have pol: "evaluateProposal = evaluateProposal \<or> evaluateProposal = evaluateGreedily"
      by simp
    from engine_inv_step [OF b pol Suc.prems(1)] have inv1: "engine_inv s1" .
    from stable_step_improves [OF Suc.prems(1) b Suc.prems(3,4)] obtain w1 where
      w1: "map_of (proposees s1) r = Some w1" "priorities w1 = priorities w"
        "partner w1 = Some p \<and> rank w1 = rank w \<or>
         (\<exists>p' i j. partner w1 = Some p' \<and> i < j \<and> j < length (priorities w) \<and>
            priorities w ! i = p' \<and> priorities w ! j = p \<and>
            map_of (ranking w) p' = Some i \<and> map_of (ranking w) p = Some j \<and>
            rank w1 = Some (i + 1) \<and> rank w = Some (j + 1))"
      by blast
    from Suc.prems(1,3) have "ranking w = mk_ranking (priorities w)"
      by (auto simp: engine_inv_def names_ok_def)
    moreover from inv1 w1(1) have "ranking w1 = mk_ranking (priorities w1)"
      by (auto simp: engine_inv_def names_ok_def)
    ultimately have rk: "ranking w1 = ranking w" using w1(2) by simp
    from w1(3) obtain p1 where p1: "partner w1 = Some p1" by auto
    from Suc.IH [OF inv1 r w1(1) p1] obtain w' where
      w': "map_of (proposees s') r = Some w'" "priorities w' = priorities w1"
        "ranking w' = ranking w1"
        "partner w' = Some p1 \<and> rank w' = rank w1 \<or>
         (\<exists>p' i j. partner w' = Some p' \<and> i < j \<and> j < length (priorities w1) \<and>
            priorities w1 ! i = p' \<and> priorities w1 ! j = p1 \<and>
            map_of (ranking w1) p' = Some i \<and> map_of (ranking w1) p1 = Some j \<and>
            rank w' = Some (i + 1) \<and> rank w1 = Some (j + 1))"
      by blast
    have w'4: "partner w' = Some p1 \<and> rank w' = rank w1 \<or>
         (\<exists>p' i j. partner w' = Some p' \<and> i < j \<and>
            map_of (ranking w) p' = Some i \<and> map_of (ranking w) p1 = Some j \<and>
            priorities w ! i = p' \<and> rank w' = Some (i + 1) \<and> rank w1 = Some (j + 1))"
      using w'(4) unfolding rk w1(2) by blast
    have goal: "partner w' = Some p \<and> rank w' = rank w \<or>
       (\<exists>p' i j. partner w' = Some p' \<and> i < j \<and> j < length (priorities w) \<and>
          priorities w ! i = p' \<and> priorities w ! j = p \<and>
          map_of (ranking w) p' = Some i \<and> map_of (ranking w) p = Some j \<and>
          rank w' = Some (i + 1) \<and> rank w = Some (j + 1))"
    proof (cases "partner w1 = Some p \<and> rank w1 = rank w")
      case True
      with p1 have pp: "p1 = p" by simp
      show ?thesis
      proof (cases "partner w' = Some p1 \<and> rank w' = rank w1")
        case True
        with \<open>partner w1 = Some p \<and> rank w1 = rank w\<close> pp show ?thesis by simp
      next
        case False
        with w'(4) obtain p' i j where
          "partner w' = Some p'" "i < j" "j < length (priorities w1)"
          "priorities w1 ! i = p'" "priorities w1 ! j = p1"
          "map_of (ranking w1) p' = Some i" "map_of (ranking w1) p1 = Some j"
          "rank w' = Some (i + 1)" "rank w1 = Some (j + 1)"
          by blast
        with True pp rk w1(2) have
          "partner w' = Some p' \<and> i < j \<and> j < length (priorities w) \<and>
           priorities w ! i = p' \<and> priorities w ! j = p \<and>
           map_of (ranking w) p' = Some i \<and> map_of (ranking w) p = Some j \<and>
           rank w' = Some (i + 1) \<and> rank w = Some (j + 1)"
          by simp
        then show ?thesis by blast
      qed
    next
      case False
      with w1(3) obtain q i1 j1 where
        q: "partner w1 = Some q" "i1 < j1" "j1 < length (priorities w)"
          "priorities w ! i1 = q" "priorities w ! j1 = p"
          "map_of (ranking w) q = Some i1" "map_of (ranking w) p = Some j1"
          "rank w1 = Some (i1 + 1)" "rank w = Some (j1 + 1)"
        by blast
      from q(1) p1 have qp: "q = p1" by simp
      show ?thesis
      proof (cases "partner w' = Some p1 \<and> rank w' = rank w1")
        case True
        with q qp have
          "partner w' = Some q \<and> i1 < j1 \<and> j1 < length (priorities w) \<and>
           priorities w ! i1 = q \<and> priorities w ! j1 = p \<and>
           map_of (ranking w) q = Some i1 \<and> map_of (ranking w) p = Some j1 \<and>
           rank w' = Some (i1 + 1) \<and> rank w = Some (j1 + 1)"
          by simp
        then show ?thesis by blast
      next
        case False
        with w'4 obtain p' i j where
          n: "partner w' = Some p'" "i < j"
            "map_of (ranking w) p' = Some i" "map_of (ranking w) p1 = Some j"
            "priorities w ! i = p'" "rank w' = Some (i + 1)" "rank w1 = Some (j + 1)"
          by blast
        from n(4) q(6) qp have "j = i1" by simp
        with n(2) q(2) have "i < j1" by simp
        with n q have
          "partner w' = Some p' \<and> i < j1 \<and> j1 < length (priorities w) \<and>
           priorities w ! i = p' \<and> priorities w ! j1 = p \<and>
           map_of (ranking w) p' = Some i \<and> map_of (ranking w) p = Some j1 \<and>
           rank w' = Some (i + 1) \<and> rank w = Some (j1 + 1)"
          by simp
        then show ?thesis by blast
      qed
    qed
    with w'(1,2,3) rk w1(2) show ?thesis by simp
  qed
qed

section \<open>The worked scenario, evaluated\<close>

lemma demo_stable_steps:
  "loopBody evaluateProposal (initState demo_proposers demo_proposees) =
     Inr (Accepts ''A'' ''X'' None, demo_accepted)"
  "loopBody evaluateProposal demo_accepted = Inr (Accepts ''B'' ''X'' (Some ''A''), demo_displaced)"
  "loopBody evaluateProposal demo_displaced = Inr (NoMoreOptions ''A'', demo_final)"
  by code_simp+

lemma demo_stable_run:
  "loopIter evaluateProposal 1 (initState demo_proposers demo_proposees) = Inr demo_accepted"
  "loopIter evaluateProposal 2 (initState demo_proposers demo_proposees) = Inr demo_displaced"
  "loopIter evaluateProposal 3 (initState demo_proposers demo_proposees) = Inr demo_final"
  by code_simp+

lemma demo_greedy_steps:
  "loopBody evaluateGreedily (initState demo_proposers demo_proposees) =
     Inr (Accepts ''A'' ''X'' None, demo_accepted)"
  "loopBody evaluateGreedily demo_accepted = Inr (Rejects ''B'' ''X'', demo_greedy_rejected)"
  "loopBody evaluateGreedily demo_greedy_rejected = Inr (Accepts ''B'' ''Y'' None, demo_greedy_final)"
  by code_simp+

lemma demo_greedy_run:
  "loopIter evaluateGreedily 1 (initState demo_proposers demo_proposees) = Inr demo_accepted"
  "loopIter evaluateGreedily 2 (initState demo_proposers demo_proposees) = Inr demo_greedy_rejected"
  "loopIter evaluateGreedily 3 (initState demo_proposers demo_proposees) = Inr demo_greedy_final"
  "loopIter evaluateGreedily 2 demo_accepted = Inr demo_greedy_final"
  by code_simp+

lemma demo_trace:
  "loopTrace evaluateProposal 1 (initState demo_proposers demo_proposees) = [Accepts ''A'' ''X'' None]"
  by code_simp

lemma demo_lookups:
  "map_of (proposees demo_accepted) ''X'' = Some (snd (demo_X (Some ''A'') (Some 2)))"
  "map_of (proposees demo_displaced) ''X'' = Some (snd (demo_X (Some ''B'') (Some 1)))"
  "map_of (proposees demo_greedy_final) ''X'' = Some (snd (demo_X (Some ''A'') (Some 2)))"
  "map_of (proposerPref demo_displaced) ''A'' = Some (snd (demo_A None (Some 0) 1))"
  "map_of (proposerPref demo_displaced) ''B'' = Some (snd (demo_B (Some ''X'') (Some 1) 1))"
  by (simp_all add: demo_accepted_def demo_displaced_def demo_greedy_final_def
        demo_X_def demo_Y_def demo_A_def demo_B_def)

section \<open>Properties of runs\<close>

lemma evaluateGreedily_accept:
  "evaluateGreedily w x = Inr (True, w') \<Longrightarrow> partner w = None \<and> partner w' = None"
  by (auto simp: evaluateGreedily_def split: option.splits if_splits)

lemma evaluateGreedily_reject:
  "evaluateGreedily w x = Inr (False, w') \<Longrightarrow> w' = w"
  by (auto simp: evaluateGreedily_def split: option.splits if_splits)

lemma greedy_step_keeps:
  assumes "loopBody evaluateGreedily s = Inr (out, s')"
  shows "(\<forall>a b d. out \<noteq> Accepts a b (Some d)) \<and>
         (\<forall>r w p. map_of (proposees s) r = Some w \<and> partner w = Some p \<longrightarrow>
            (\<exists>w'. map_of (proposees s') r = Some w' \<and> partner w' = Some p))"
  using assms
proof (cases rule: loopBody_cases)
  case (Exhausted u us m)
  then show ?thesis by simp
next
  case (Rejected u us m who0 who)
  from evaluateGreedily_reject [OF Rejected(5)] have "who = who0" .
  with Rejected show ?thesis by (auto simp: update_conv')
next
  case (Accepted u us m who0 who)
  from evaluateGreedily_accept [OF Accepted(5)] have "partner who0 = None" by simp
  with Accepted show ?thesis by (auto simp: update_conv')
next
  case (Displaced u us m who0 who old mOld)
  from evaluateGreedily_accept [OF Displaced(5)] Displaced(6) show ?thesis by simp
qed

lemma greedy_run_keeps:
  "loopIter evaluateGreedily k s = Inr s' \<Longrightarrow>
   map_of (proposees s) r = Some w \<Longrightarrow> partner w = Some p \<Longrightarrow>
   \<exists>w'. map_of (proposees s') r = Some w' \<and> partner w' = Some p"
proof (induction k arbitrary: s w)
  case 0
  then show ?case by simp
next
  case (Suc k)
  show ?case
  proof (cases "unmatched s = []")
    case True
    with Suc.prems show ?thesis by simp
  next
    case False
    with Suc.prems(1) obtain out s1 where
      b: "loopBody evaluateGreedily s = Inr (out, s1)" and r: "loopIter evaluateGreedily k s1 = Inr s'"
      by (auto split: sum.splits)
    from greedy_step_keeps [OF b] Suc.prems(2,3) obtain w1 where
      "map_of (proposees s1) r = Some w1" "partner w1 = Some p" by blast
    with Suc.IH [OF r] show ?thesis by blast
  qed
qed

text \<open>
  C6. In greedy mode \<open>evaluateGreedily\<close> accepts only an unpartnered proposee, no
  iteration of the greedy loop reports a dumped proposer (the displacement branch is not
  executed), and a proposee that has a partner at some point of the run has the same
  partner after any number of further iterations.
\<close>

theorem greedy_never_displaces:
  "(evaluateGreedily w x = Inr (True, w') \<longrightarrow> partner w = None) \<and>
   (loopBody evaluateGreedily s = Inr (out, s') \<longrightarrow>
      (\<forall>a b d. out \<noteq> Accepts a b (Some d))) \<and>
   (loopIter evaluateGreedily k s = Inr s'' \<longrightarrow>
      (\<forall>r v p. map_of (proposees s) r = Some v \<and> partner v = Some p \<longrightarrow>
         (\<exists>v'. map_of (proposees s'') r = Some v' \<and> partner v' = Some p)))"
  using evaluateGreedily_accept [of w x w'] greedy_step_keeps [of s out s']
    greedy_run_keeps [of k s s'']
  by blast

theorem greedy_never_displaces_witness:
  "evaluateGreedily (snd (demo_Y None None)) ''B'' = Inr (True, snd (demo_Y None (Some 1))) \<and>
   partner (snd (demo_Y None None)) = None \<and>
   loopBody evaluateGreedily demo_accepted = Inr (Rejects ''B'' ''X'', demo_greedy_rejected) \<and>
   loopIter evaluateGreedily 2 demo_accepted = Inr demo_greedy_final \<and>
   map_of (proposees demo_accepted) ''X'' = Some (snd (demo_X (Some ''A'') (Some 2))) \<and>
   partner (snd (demo_X (Some ''A'') (Some 2))) = Some ''A'' \<and>
   (\<exists>v'. map_of (proposees demo_greedy_final) ''X'' = Some v' \<and> partner v' = Some ''A'')"
proof -
  have h1: "evaluateGreedily (snd (demo_Y None None)) ''B'' = Inr (True, snd (demo_Y None (Some 1)))"
    by code_simp
  have h2: "loopBody evaluateGreedily demo_accepted = Inr (Rejects ''B'' ''X'', demo_greedy_rejected)"
    by (rule demo_greedy_steps(2))
  have h3: "loopIter evaluateGreedily 2 demo_accepted = Inr demo_greedy_final"
    by (rule demo_greedy_run(4))
  have h4: "map_of (proposees demo_accepted) ''X'' = Some (snd (demo_X (Some ''A'') (Some 2)))"
    by (rule demo_lookups(1))
  have h5: "partner (snd (demo_X (Some ''A'') (Some 2))) = Some ''A''"
    by (simp add: demo_X_def)
  note inst = greedy_never_displaces [of "snd (demo_Y None None)" "''B''" "snd (demo_Y None (Some 1))"
      demo_accepted "Rejects ''B'' ''X''" demo_greedy_rejected 2 demo_greedy_final]
  from inst h1 have c1: "partner (snd (demo_Y None None)) = None" by blast
  from inst h3 h4 h5 have c3:
    "\<exists>v'. map_of (proposees demo_greedy_final) ''X'' = Some v' \<and> partner v' = Some ''A''"
    by blast
  from h1 c1 h2 h3 h4 h5 c3 show ?thesis by blast
qed

text \<open>
  C8. At every acceptance in a run of either mode, the accepted proposer's \<open>rank\<close> is
  its \<open>proposalIndex\<close>, which is the number of proposals it has made so far, the
  accepted one included; the proposee's \<open>rank\<close> is one more than the position of the
  suitor in its priority list (the position its \<open>ranking\<close> holds, which is the last one
  where the list names the suitor); and the two name each other as partners.
\<close>

theorem acceptance_sets_ranks:
  assumes "ev = evaluateProposal \<or> ev = evaluateGreedily"
    and "loopIter ev k (initState pl ql) = Inr s"
    and "loopBody ev s = Inr (Accepts a b d, s')"
  shows "\<exists>m w i. map_of (proposerPref s') a = Some m \<and> partner m = Some b \<and>
           rank m = Some (proposalIndex m) \<and>
           proposalIndex m = proposalsBy a (loopTrace ev k (initState pl ql) @ [Accepts a b d]) \<and>
           map_of (proposees s') b = Some w \<and> partner w = Some a \<and>
           i < length (priorities w) \<and> priorities w ! i = a \<and>
           (\<forall>j < length (priorities w). priorities w ! j = a \<longrightarrow> j \<le> i) \<and>
           map_of (ranking w) a = Some i \<and> rank w = Some (i + 1)"
proof -
  from reachable_inv [OF assms(1,2)] have inv: "engine_inv s" .
  from accept_step_ranks [OF assms(1) inv assms(3)] obtain m0 m w i where
    f: "map_of (proposerPref s) a = Some m0" "map_of (proposerPref s') a = Some m"
      "proposalIndex m = proposalIndex m0 + 1" "partner m = Some b"
      "rank m = Some (proposalIndex m)"
      "map_of (proposees s') b = Some w" "partner w = Some a"
      "i < length (priorities w)" "priorities w ! i = a"
      "map_of (ranking w) a = Some i" "rank w = Some (i + 1)"
    by blast
  from initState_cursor_count [OF assms(1,2) f(1)]
  have "proposalIndex m0 = proposalsBy a (loopTrace ev k (initState pl ql))" .
  with f(3) have cnt:
    "proposalIndex m = proposalsBy a (loopTrace ev k (initState pl ql) @ [Accepts a b d])"
    by (simp add: proposalsBy_append)
  from engine_inv_step [OF assms(3,1) inv] f(6) have "ranking w = mk_ranking (priorities w)"
    by (auto simp: engine_inv_def names_ok_def)
  with f(10) have last: "\<forall>j < length (priorities w). priorities w ! j = a \<longrightarrow> j \<le> i"
    using mk_ranking_last [of "priorities w" a i] by auto
  from f cnt last show ?thesis by blast
qed

theorem acceptance_sets_ranks_witness:
  "loopIter evaluateProposal 1 (initState demo_proposers demo_proposees) = Inr demo_accepted \<and>
   loopBody evaluateProposal demo_accepted = Inr (Accepts ''B'' ''X'' (Some ''A''), demo_displaced) \<and>
   (\<exists>m w i. map_of (proposerPref demo_displaced) ''B'' = Some m \<and> partner m = Some ''X'' \<and>
      rank m = Some (proposalIndex m) \<and>
      proposalIndex m =
        proposalsBy ''B'' (loopTrace evaluateProposal 1 (initState demo_proposers demo_proposees)
                           @ [Accepts ''B'' ''X'' (Some ''A'')]) \<and>
      map_of (proposees demo_displaced) ''X'' = Some w \<and> partner w = Some ''B'' \<and>
      i < length (priorities w) \<and> priorities w ! i = ''B'' \<and>
      (\<forall>j < length (priorities w). priorities w ! j = ''B'' \<longrightarrow> j \<le> i) \<and>
      map_of (ranking w) ''B'' = Some i \<and> rank w = Some (i + 1))"
proof -
  have h0: "evaluateProposal = evaluateProposal \<or> evaluateProposal = evaluateGreedily" by simp
  note h1 = demo_stable_run(1)
  note h2 = demo_stable_steps(2)
  show ?thesis by (rule conjI [OF h1 conjI [OF h2 acceptance_sets_ranks [OF h0 h1 h2]]])
qed

text \<open>
  C9, as amended. Whenever a proposer is dumped in a run, that proposer was the partner
  of the accepting proposee, and after the iteration its \<open>partner\<close> is \<open>None\<close>, its
  \<open>rank\<close> is the number 0 (not the \<open>None\<close> of a proposer that was never matched),
  and it has been appended to the work list: the new work list is the old one without
  its head, followed by the dumped proposer.
\<close>

theorem dumped_proposer_reset:
  assumes "ev = evaluateProposal \<or> ev = evaluateGreedily"
    and "loopIter ev k (initState pl ql) = Inr s"
    and "loopBody ev s = Inr (Accepts a b (Some d), s')"
  shows "\<exists>m0 m. map_of (proposerPref s) d = Some m0 \<and> partner m0 = Some b \<and>
           map_of (proposerPref s') d = Some m \<and> partner m = None \<and> rank m = Some 0 \<and>
           unmatched s' = tl (unmatched s) @ [d]"
  using dump_step_clears [OF assms(1) reachable_inv [OF assms(1,2)] assms(3)] .

theorem dumped_proposer_reset_witness:
  "loopIter evaluateProposal 1 (initState demo_proposers demo_proposees) = Inr demo_accepted \<and>
   loopBody evaluateProposal demo_accepted = Inr (Accepts ''B'' ''X'' (Some ''A''), demo_displaced) \<and>
   (\<exists>m0 m. map_of (proposerPref demo_accepted) ''A'' = Some m0 \<and> partner m0 = Some ''X'' \<and>
      map_of (proposerPref demo_displaced) ''A'' = Some m \<and> partner m = None \<and>
      rank m = Some 0 \<and> unmatched demo_displaced = tl (unmatched demo_accepted) @ [''A''])"
proof -
  have h0: "evaluateProposal = evaluateProposal \<or> evaluateProposal = evaluateGreedily" by simp
  note h1 = demo_stable_run(1)
  note h2 = demo_stable_steps(2)
  show ?thesis by (rule conjI [OF h1 conjI [OF h2 dumped_proposer_reset [OF h0 h1 h2]]])
qed

text \<open>
  C9 as stated fails: in the worked scenario A is dumped in the second iteration, and
  its \<open>rank\<close> is then \<open>Some 0\<close>, while a proposer that was never matched has the
  \<open>rank\<close> \<open>None\<close> of the constructor.
\<close>

theorem dumped_rank_counterexample:
  "loopIter evaluateProposal 1 (initState demo_proposers demo_proposees) = Inr demo_accepted \<and>
   loopBody evaluateProposal demo_accepted = Inr (Accepts ''B'' ''X'' (Some ''A''), demo_displaced) \<and>
   map_of (proposerPref demo_displaced) ''A'' = Some (snd (demo_A None (Some 0) 1)) \<and>
   partner (snd (demo_A None (Some 0) 1)) = None \<and>
   rank (snd (demo_A None (Some 0) 1)) = Some 0 \<and>
   rank (Proposer ''A'' [''X'']) = None \<and>
   rank (snd (demo_A None (Some 0) 1)) \<noteq> rank (Proposer ''A'' [''X''])"
proof -
  have c: "partner (snd (demo_A None (Some 0) 1)) = None"
    "rank (snd (demo_A None (Some 0) 1)) = Some 0"
    "rank (Proposer ''A'' [''X'']) = None"
    "rank (snd (demo_A None (Some 0) 1)) \<noteq> rank (Proposer ''A'' [''X''])"
    by (simp_all add: demo_A_def Proposer_def)
  from demo_stable_run(1) demo_stable_steps(2) demo_lookups(4) c show ?thesis by blast
qed

text \<open>
  C10. In stable mode, take a proposee that has a partner at some quiescent point of a
  run, and the state any number of iterations later. Either its partner and \<open>rank\<close>
  are the same, or its new partner stands at a strictly lower index of its priority
  list than the old one and its \<open>rank\<close>, which is that index plus one in both states,
  is strictly lower too. It is never without a partner again.
\<close>

theorem proposee_only_improves:
  assumes "loopIter evaluateProposal k0 (initState pl ql) = Inr s"
    and "loopIter evaluateProposal k s = Inr s'"
    and "map_of (proposees s) r = Some w" and "partner w = Some p"
  shows "\<exists>w'. map_of (proposees s') r = Some w' \<and> priorities w' = priorities w \<and>
     (partner w' = Some p \<and> rank w' = rank w \<or>
      (\<exists>p' i j. partner w' = Some p' \<and> i < j \<and> j < length (priorities w) \<and>
         priorities w ! i = p' \<and> priorities w ! j = p \<and>
         map_of (ranking w) p' = Some i \<and> map_of (ranking w) p = Some j \<and>
         rank w' = Some (i + 1) \<and> rank w = Some (j + 1)))"
proof -
  have "engine_inv s" using assms(1) by (intro reachable_inv [of evaluateProposal]) simp_all
  from stable_run_improves [OF this assms(2,3,4)] show ?thesis by blast
qed

theorem proposee_only_improves_witness:
  "loopIter evaluateProposal 1 (initState demo_proposers demo_proposees) = Inr demo_accepted \<and>
   loopIter evaluateProposal 1 demo_accepted = Inr demo_displaced \<and>
   map_of (proposees demo_accepted) ''X'' = Some (snd (demo_X (Some ''A'') (Some 2))) \<and>
   partner (snd (demo_X (Some ''A'') (Some 2))) = Some ''A'' \<and>
   (\<exists>w'. map_of (proposees demo_displaced) ''X'' = Some w' \<and>
      priorities w' = priorities (snd (demo_X (Some ''A'') (Some 2))) \<and>
      (partner w' = Some ''A'' \<and> rank w' = rank (snd (demo_X (Some ''A'') (Some 2))) \<or>
       (\<exists>p' i j. partner w' = Some p' \<and> i < j \<and>
          j < length (priorities (snd (demo_X (Some ''A'') (Some 2)))) \<and>
          priorities (snd (demo_X (Some ''A'') (Some 2))) ! i = p' \<and>
          priorities (snd (demo_X (Some ''A'') (Some 2))) ! j = ''A'' \<and>
          map_of (ranking (snd (demo_X (Some ''A'') (Some 2)))) p' = Some i \<and>
          map_of (ranking (snd (demo_X (Some ''A'') (Some 2)))) ''A'' = Some j \<and>
          rank w' = Some (i + 1) \<and> rank (snd (demo_X (Some ''A'') (Some 2))) = Some (j + 1))))"
proof -
  note h1 = demo_stable_run(1)
  have h2: "loopIter evaluateProposal 1 demo_accepted = Inr demo_displaced" by code_simp
  note h3 = demo_lookups(1)
  have h4: "partner (snd (demo_X (Some ''A'') (Some 2))) = Some ''A''" by (simp add: demo_X_def)
  show ?thesis
    by (rule conjI [OF h1 conjI [OF h2 conjI [OF h3 conjI [OF h4
          proposee_only_improves [OF h1 h2 h3 h4]]]]])
qed

lemma no_empty_name_step:
  assumes body: "loopBody ev s = Inr (out, s')"
    and pol: "ev = evaluateProposal \<or> ev = evaluateGreedily"
    and inv: "engine_inv s"
    and ne: "map_of (proposerPref s) [] = None"
  shows "map_of (proposerPref s') [] = None"
  using body pol inv
proof (cases rule: loopBody_step)
  case (Exhausted u us m)
  with ne show ?thesis by simp
next
  case (Rejected u us m n w)
  with ne show ?thesis by auto
next
  case (Accepted u us m n w rs)
  with ne show ?thesis by auto
next
  case (Displaced u us m n w rs old mOld rp)
  with ne show ?thesis by auto
qed

lemma partners_forth_step:
  assumes body: "loopBody ev s = Inr (out, s')"
    and pol: "ev = evaluateProposal \<or> ev = evaluateGreedily"
    and inv: "engine_inv s"
    and ne: "ev = evaluateProposal \<longrightarrow> map_of (proposerPref s) [] = None"
    and forth: "partners_forth s"
  shows "partners_forth s'"
  using body pol inv
proof (cases rule: loopBody_step)
  case (Exhausted u us m)
  with forth show ?thesis by (simp add: partners_forth_def)
next
  case (Rejected u us m n w)
  show ?thesis
    unfolding partners_forth_def
  proof (intro allI impI, elim conjE)
    fix p m' q
    assume a: "map_of (proposerPref s') p = Some m'" "partner m' = Some q"
    with Rejected(3,9) have "p \<noteq> u" by auto
    with a Rejected(9) have "map_of (proposerPref s) p = Some m'" by simp
    with forth a(2) show "\<exists>w. map_of (proposees s') q = Some w \<and> partner w = Some p"
      unfolding partners_forth_def Rejected(10) by blast
  qed
next
  case (Accepted u us m n w rs)
  have free: "partner w = None"
  proof (rule ccontr)
    assume "partner w \<noteq> None"
    with Accepted(8) have e: "ev = evaluateProposal" "partner w = Some []" by auto
    from inv Accepted(6) e(2) have "map_of (proposerPref s) [] \<noteq> None"
      unfolding engine_inv_def partners_back_def by blast
    with ne e(1) show False by simp
  qed
  show ?thesis
    unfolding partners_forth_def
  proof (intro allI impI, elim conjE)
    fix p m' q
    assume a: "map_of (proposerPref s') p = Some m'" "partner m' = Some q"
    show "\<exists>w. map_of (proposees s') q = Some w \<and> partner w = Some p"
    proof (cases "p = u")
      case True
      with a Accepted(10,11) show ?thesis by auto
    next
      case False
      with a Accepted(10) have m': "map_of (proposerPref s) p = Some m'" by simp
      with forth a(2) obtain w' where w': "map_of (proposees s) q = Some w'" "partner w' = Some p"
        unfolding partners_forth_def by blast
      with Accepted(6) free have "q \<noteq> n" by auto
      with w' show ?thesis by (simp add: Accepted(11))
    qed
  qed
next
  case (Displaced u us m n w rs old mOld rp)
  show ?thesis
    unfolding partners_forth_def
  proof (intro allI impI, elim conjE)
    fix p m' q
    assume a: "map_of (proposerPref s') p = Some m'" "partner m' = Some q"
    show "\<exists>w. map_of (proposees s') q = Some w \<and> partner w = Some p"
    proof (cases "p = u")
      case True
      with a Displaced(17,18) show ?thesis by auto
    next
      case False
      with a Displaced(17) have po: "p \<noteq> old" by auto
      with False a Displaced(17) have m': "map_of (proposerPref s) p = Some m'" by simp
      with forth a(2) obtain w' where w': "map_of (proposees s) q = Some w'" "partner w' = Some p"
        unfolding partners_forth_def by blast
      with Displaced(6,9) po have "q \<noteq> n" by auto
      with w' show ?thesis by (simp add: Displaced(18))
    qed
  qed
qed

lemma partners_forth_loopIter:
  assumes pol: "ev = evaluateProposal \<or> ev = evaluateGreedily"
  shows "engine_inv s \<Longrightarrow> ev = evaluateProposal \<longrightarrow> map_of (proposerPref s) [] = None \<Longrightarrow>
         partners_forth s \<Longrightarrow> loopIter ev k s = Inr s' \<Longrightarrow> partners_forth s'"
proof (induction k arbitrary: s)
  case 0
  then show ?case by simp
next
  case (Suc k)
  show ?case
  proof (cases "unmatched s = []")
    case True
    with Suc.prems show ?thesis by simp
  next
    case False
    with Suc.prems(4) obtain out s1 where
      b: "loopBody ev s = Inr (out, s1)" and r: "loopIter ev k s1 = Inr s'"
      by (auto split: sum.splits)
    from engine_inv_step [OF b pol Suc.prems(1)] have i1: "engine_inv s1" .
    from Suc.prems(2) no_empty_name_step [OF b pol Suc.prems(1)]
    have n1: "ev = evaluateProposal \<longrightarrow> map_of (proposerPref s1) [] = None" by blast
    from partners_forth_step [OF b pol Suc.prems(1,2,3)] have f1: "partners_forth s1" .
    from Suc.IH [OF i1 n1 f1 r] show ?thesis .
  qed
qed

lemma partners_forth_initState: "partners_forth (initState pl ql)"
  unfolding partners_forth_def
  by (auto dest!: initState_proposer simp: Proposer_def)

lemma initState_no_empty_name:
  assumes "[] \<notin> fst ` set pl"
  shows "map_of (proposerPref (initState pl ql)) [] = None"
proof (rule ccontr)
  assume "map_of (proposerPref (initState pl ql)) [] \<noteq> None"
  then obtain m where "map_of (proposerPref (initState pl ql)) [] = Some m" by auto
  from initState_proposer [OF this] assms show False by force
qed

lemma mutual_reachable:
  assumes pol: "ev = evaluateProposal \<or> ev = evaluateGreedily"
    and names: "ev = evaluateProposal \<longrightarrow> [] \<notin> fst ` set pl"
    and run: "loopIter ev k (initState pl ql) = Inr s"
  shows "mutual s"
proof -
  from names have ne: "ev = evaluateProposal \<longrightarrow> map_of (proposerPref (initState pl ql)) [] = None"
    using initState_no_empty_name [of pl ql] by simp
  from partners_forth_loopIter [OF pol engine_inv_initState ne partners_forth_initState run]
  have "partners_forth s" .
  moreover from reachable_inv [OF pol run] have "partners_back s" by (simp add: engine_inv_def)
  ultimately show ?thesis
    unfolding mutual_def partners_forth_def partners_back_def by blast
qed

text \<open>
  C7. At every quiescent point of a run of either mode, and in the state the loop ends
  in, the partner fields are symmetric: a proposer's partner is a proposee whose partner
  is that proposer, and a proposee's partner is a proposer whose partner is that
  proposee. In stable mode this needs that no proposer's name is the empty string, which
  \<open>parseFile\<close> guarantees (it skips a line whose name is empty): the test
  \<open>if who.partner:\<close> takes a partner with an empty name for no partner.
\<close>

theorem partners_symmetric:
  assumes "ev = evaluateProposal \<or> ev = evaluateGreedily"
    and "ev = evaluateProposal \<longrightarrow> [] \<notin> fst ` set pl"
  shows "(loopIter ev k (initState pl ql) = Inr s \<longrightarrow> mutual s) \<and>
         (matchLoop ev (initState pl ql) = Inr s \<longrightarrow> mutual s)"
proof (intro conjI impI)
  assume "loopIter ev k (initState pl ql) = Inr s"
  with assms show "mutual s" by (rule mutual_reachable)
next
  assume "matchLoop ev (initState pl ql) = Inr s"
  from matchLoop_loopIter [OF this] obtain j where "loopIter ev j (initState pl ql) = Inr s"
    by blast
  with assms show "mutual s" by (rule mutual_reachable)
qed

theorem partners_symmetric_witness:
  "[] \<notin> fst ` set demo_proposers \<and>
   loopIter evaluateProposal 2 (initState demo_proposers demo_proposees) = Inr demo_displaced \<and>
   mutual demo_displaced \<and>
   matchLoop evaluateProposal (initState demo_proposers demo_proposees) = Inr demo_final \<and>
   mutual demo_final"
proof -
  have h0: "[] \<notin> fst ` set demo_proposers" by (simp add: demo_proposers_def)
  have h: "evaluateProposal = evaluateProposal \<or> evaluateProposal = evaluateGreedily" by simp
  from h0 have h': "evaluateProposal = evaluateProposal \<longrightarrow> [] \<notin> fst ` set demo_proposers"
    by simp
  note h1 = demo_stable_run(2)
  have h2: "matchLoop evaluateProposal (initState demo_proposers demo_proposees) = Inr demo_final"
    by code_simp
  from partners_symmetric [OF h h', of 2 demo_proposees demo_displaced] h1
  have c1: "mutual demo_displaced" by blast
  from partners_symmetric [OF h h', of 2 demo_proposees demo_final] h2
  have c2: "mutual demo_final" by blast
  from h0 h1 c1 h2 c2 show ?thesis by blast
qed

lemma empty_name_breaks_symmetry:
  "loopIter evaluateProposal 2 (initState [([], [''X'']), (''B'', [''X''])] [(''X'', [''B'', []])])
   = Inr \<lparr>proposerPref =
            [([], \<lparr>name = [], priorities = [''X''], partner = Some ''X'', rank = Some 1,
                   proposalIndex = 1\<rparr>),
             (''B'', \<lparr>name = ''B'', priorities = [''X''], partner = Some ''X'', rank = Some 1,
                   proposalIndex = 1\<rparr>)],
          unmatched = [],
          proposees =
            [(''X'', \<lparr>name = ''X'', priorities = [''B'', []], partner = Some ''B'',
                    rank = Some 1, ranking = [(''B'', 0), ([], 1)]\<rparr>)]\<rparr>"
  by code_simp

lemma prefs_known_initState:
  assumes "identifiers_known pl ql"
  shows "prefs_known (initState pl ql)"
  unfolding prefs_known_def
proof (intro allI impI ballI)
  fix p m n
  assume m: "map_of (proposerPref (initState pl ql)) p = Some m" and n: "n \<in> set (priorities m)"
  from initState_proposer [OF m] obtain pr where pr: "(p, pr) \<in> set pl" "m = Proposer p pr"
    by blast
  with n have "n \<in> set pr" by (simp add: Proposer_def)
  with assms pr(1) have "n \<in> fst ` set ql"
    by (auto simp: identifiers_known_def list_all_iff)
  then have "n \<in> fst ` set (proposees (initState pl ql))"
    using dict_fold_keys [of Proposee ql "[]"] by (simp add: initState_def Let_def)
  then show "map_of (proposees (initState pl ql)) n \<noteq> None"
    by (simp add: map_of_eq_None_iff)
qed

lemma prefs_known_step:
  assumes body: "loopBody ev s = Inr (out, s')"
    and pol: "ev = evaluateProposal \<or> ev = evaluateGreedily"
    and inv: "engine_inv s"
    and known: "prefs_known s"
  shows "prefs_known s'"
  using body pol inv
proof (cases rule: loopBody_step)
  case (Exhausted u us m)
  with known show ?thesis by (simp add: prefs_known_def)
next
  case (Rejected u us m n w)
  with known show ?thesis by (auto simp: prefs_known_def)
next
  case (Accepted u us m n w rs)
  with known show ?thesis by (auto simp: prefs_known_def)
next
  case (Displaced u us m n w rs old mOld rp)
  with known show ?thesis by (auto simp: prefs_known_def)
qed

lemma loopBody_exhausted:
  "unmatched s = u # us \<Longrightarrow> map_of (proposerPref s) u = Some m0 \<Longrightarrow>
   length (priorities m0) \<le> proposalIndex m0 \<Longrightarrow>
   \<exists>out s'. loopBody ev s = Inr (out, s')"
  by (simp add: loopBody_def nextProposal_def)

lemma loopBody_rejected:
  "unmatched s = u # us \<Longrightarrow> map_of (proposerPref s) u = Some m0 \<Longrightarrow>
   proposalIndex m0 < length (priorities m0) \<Longrightarrow>
   map_of (proposees s) (priorities m0 ! proposalIndex m0) = Some who0 \<Longrightarrow>
   ev who0 (name m0) = Inr (False, who) \<Longrightarrow>
   \<exists>out s'. loopBody ev s = Inr (out, s')"
  by (simp add: loopBody_def nextProposal_def Let_def)

lemma loopBody_accepted_free:
  "unmatched s = u # us \<Longrightarrow> map_of (proposerPref s) u = Some m0 \<Longrightarrow>
   proposalIndex m0 < length (priorities m0) \<Longrightarrow>
   map_of (proposees s) (priorities m0 ! proposalIndex m0) = Some who0 \<Longrightarrow>
   ev who0 (name m0) = Inr (True, who) \<Longrightarrow>
   partner who = None \<Longrightarrow>
   \<exists>out s'. loopBody ev s = Inr (out, s')"
  by (simp add: loopBody_def nextProposal_def Let_def)

lemma loopBody_accepted_empty:
  "unmatched s = u # us \<Longrightarrow> map_of (proposerPref s) u = Some m0 \<Longrightarrow>
   proposalIndex m0 < length (priorities m0) \<Longrightarrow>
   map_of (proposees s) (priorities m0 ! proposalIndex m0) = Some who0 \<Longrightarrow>
   ev who0 (name m0) = Inr (True, who) \<Longrightarrow>
   partner who = Some [] \<Longrightarrow>
   \<exists>out s'. loopBody ev s = Inr (out, s')"
  by (simp add: loopBody_def nextProposal_def Let_def)

lemma loopBody_accepted_dump:
  "unmatched s = u # us \<Longrightarrow> map_of (proposerPref s) u = Some m0 \<Longrightarrow>
   proposalIndex m0 < length (priorities m0) \<Longrightarrow>
   map_of (proposees s) (priorities m0 ! proposalIndex m0) = Some who0 \<Longrightarrow>
   ev who0 (name m0) = Inr (True, who) \<Longrightarrow>
   partner who = Some old \<Longrightarrow> old \<noteq> [] \<Longrightarrow>
   map_of (AList.update u (m0\<lparr>proposalIndex := proposalIndex m0 + 1\<rparr>) (proposerPref s)) old
     = Some mOld \<Longrightarrow>
   \<exists>out s'. loopBody ev s = Inr (out, s')"
  by (simp add: loopBody_def nextProposal_def Let_def)

lemma loopBody_returns:
  assumes pol: "ev = evaluateProposal \<or> ev = evaluateGreedily"
    and inv: "engine_inv s"
    and known: "prefs_known s"
    and work: "unmatched s \<noteq> []"
  shows "\<exists>out s'. loopBody ev s = Inr (out, s')"
proof -
  from work obtain u us where u: "unmatched s = u # us" by (cases "unmatched s") auto
  from inv have um: "unmatched_ok s" and pb: "partners_back s"
    by (simp_all add: engine_inv_def)
  from um u obtain m0 where m0: "map_of (proposerPref s) u = Some m0"
    unfolding unmatched_ok_def by auto
  show ?thesis
  proof (cases "length (priorities m0) \<le> proposalIndex m0")
    case True
    from loopBody_exhausted [OF u m0 True] show ?thesis .
  next
    case False
    then have lt: "proposalIndex m0 < length (priorities m0)" by simp
    let ?n = "priorities m0 ! proposalIndex m0"
    from lt have "?n \<in> set (priorities m0)" by simp
    moreover from known m0 have "\<forall>n \<in> set (priorities m0). map_of (proposees s) n \<noteq> None"
      unfolding prefs_known_def by blast
    ultimately have "map_of (proposees s) ?n \<noteq> None" by blast
    then obtain who0 where who0: "map_of (proposees s) ?n = Some who0" by blast
    have ranked: "\<forall>p. partner who0 = Some p \<longrightarrow> map_of (ranking who0) p \<noteq> None"
    proof (intro allI impI)
      fix p assume "partner who0 = Some p"
      with pb who0 obtain i where "map_of (ranking who0) p = Some i"
        unfolding partners_back_def by blast
      then show "map_of (ranking who0) p \<noteq> None" by simp
    qed
    from policy_returns [OF pol ranked] obtain b who where
      ev: "ev who0 (name m0) = Inr (b, who)" by blast
    show ?thesis
    proof (cases b)
      case False
      with ev have "ev who0 (name m0) = Inr (False, who)" by simp
      from loopBody_rejected [where ev = ev, OF u m0 lt who0 this] show ?thesis .
    next
      case True
      with ev have acc: "ev who0 (name m0) = Inr (True, who)" by simp
      from policy_accept [OF pol acc] obtain rs where
        "who = who0\<lparr>rank := Some (rs + 1)\<rparr>" by blast
      then have pw: "partner who = partner who0" by simp
      show ?thesis
      proof (cases "partner who")
        case None
        from loopBody_accepted_free [where ev = ev, OF u m0 lt who0 acc None] show ?thesis .
      next
        case (Some old)
        show ?thesis
        proof (cases "old = []")
          case True
          with Some have "partner who = Some []" by simp
          from loopBody_accepted_empty [where ev = ev, OF u m0 lt who0 acc this] show ?thesis .
        next
          case False
          from Some pw have "partner who0 = Some old" by simp
          with pb who0 obtain mo where "map_of (proposerPref s) old = Some mo"
            unfolding partners_back_def by blast
          then obtain mOld where
            "map_of (AList.update u (m0\<lparr>proposalIndex := proposalIndex m0 + 1\<rparr>) (proposerPref s)) old
               = Some mOld"
            by (cases "old = u") (simp_all add: update_conv')
          from loopBody_accepted_dump [where ev = ev, OF u m0 lt who0 acc Some False this] show ?thesis .
        qed
      qed
    qed
  qed
qed

lemma loopIter_completes:
  assumes pol: "ev = evaluateProposal \<or> ev = evaluateGreedily"
  shows "engine_inv s \<Longrightarrow> prefs_known s \<Longrightarrow> remaining s \<le> k \<Longrightarrow>
         \<exists>s'. loopIter ev k s = Inr s' \<and> unmatched s' = []"
proof (induction k arbitrary: s)
  case 0
  then show ?case by (simp add: remaining_def)
next
  case (Suc k)
  show ?case
  proof (cases "unmatched s = []")
    case True
    then show ?thesis by simp
  next
    case False
    from loopBody_returns [OF pol Suc.prems(1,2) False] obtain out s1 where
      b: "loopBody ev s = Inr (out, s1)" by blast
    from remaining_decreases [OF b] Suc.prems(3) have "remaining s1 \<le> k" by simp
    from Suc.IH [OF engine_inv_step [OF b pol Suc.prems(1)]
        prefs_known_step [OF b pol Suc.prems(1,2)] this]
    obtain s' where "loopIter ev k s1 = Inr s'" "unmatched s' = []" by blast
    with False b show ?thesis by simp
  qed
qed

lemma todo_fold_le:
  "sum_list (map (\<lambda>(k, m). todo m)
      (fold (\<lambda>(person, priority) d. AList.update person (Proposer person priority) d) l d0))
     + length (fold (\<lambda>(person, priority) d. AList.update person (Proposer person priority) d) l d0)
   \<le> sum_list (map (\<lambda>(k, m). todo m) d0) + length d0
       + (sum_list (map (length \<circ> snd) l) + length l)"
proof (induction l arbitrary: d0)
  case Nil
  then show ?case by simp
next
  case (Cons a l)
  obtain person priority where a: "a = (person, priority)" by (cases a)
  have upd: "sum_list (map (\<lambda>(k, m). todo m) (AList.update person (Proposer person priority) d0))
        + length (AList.update person (Proposer person priority) d0)
      \<le> sum_list (map (\<lambda>(k, m). todo m) d0) + length d0 + (length priority + 1)"
    by (induction d0) (auto simp: todo_def Proposer_def)
  from Cons.IH [of "AList.update person (Proposer person priority) d0"] upd
  show ?case by (simp add: a)
qed

lemma remaining_initState:
  "remaining (initState pl ql) \<le> sum_list (map (length \<circ> snd) pl) + length pl"
  using todo_fold_le [of pl "[]"]
  by (simp add: remaining_def initState_def Let_def)

lemma run_completes:
  assumes pol: "ev = evaluateProposal \<or> ev = evaluateGreedily"
    and known: "identifiers_known pl ql"
  shows "\<exists>s. loopIter ev (sum_list (map (length \<circ> snd) pl) + length pl) (initState pl ql) = Inr s \<and>
             unmatched s = [] \<and> matchLoop ev (initState pl ql) = Inr s"
proof -
  from loopIter_completes [OF pol engine_inv_initState prefs_known_initState [OF known]
      remaining_initState]
  obtain s where s: "loopIter ev (sum_list (map (length \<circ> snd) pl) + length pl) (initState pl ql) = Inr s"
    "unmatched s = []" by blast
  from loopIter_matchLoop [OF s] s show ?thesis by blast
qed

lemma loopBody_unknown:
  "unmatched s = u # us \<Longrightarrow> map_of (proposerPref s) u = Some m \<Longrightarrow>
   proposalIndex m < length (priorities m) \<Longrightarrow>
   map_of (proposees s) (priorities m ! proposalIndex m) = None \<Longrightarrow>
   loopBody ev s = Inl KeyError"
  by (simp add: loopBody_def nextProposal_def Let_def)

lemma policy_unlisted:
  "map_of (ranking w) x = None \<Longrightarrow>
   evaluateProposal w x = Inr (False, w) \<and> evaluateGreedily w x = Inr (False, w)"
  by (simp add: evaluateProposal_def evaluateGreedily_def)


text \<open>
  C2, as amended. When every identifier in the proposers' priority lists is the name of
  a proposee, \<open>doMatch\<close> and \<open>doGreedyMatch\<close> raise no error and end with an empty
  work list. A proposer that a proposee does not list is rejected by both policies,
  without error. An identifier that names no proposee raises \<open>KeyError\<close> in the
  iteration that proposes to it.
\<close>

theorem known_identifiers_no_error:
  assumes "identifiers_known pl ql"
  shows "(\<exists>s. doMatch pl ql = Inr s \<and> unmatched s = []) \<and>
         (\<exists>s. doGreedyMatch pl ql = Inr s \<and> unmatched s = []) \<and>
         (\<forall>w x. map_of (ranking w) x = None \<longrightarrow>
            evaluateProposal w x = Inr (False, w) \<and> evaluateGreedily w x = Inr (False, w)) \<and>
         (\<forall>ev s u us m. unmatched s = u # us \<and> map_of (proposerPref s) u = Some m \<and>
            proposalIndex m < length (priorities m) \<and>
            map_of (proposees s) (priorities m ! proposalIndex m) = None \<longrightarrow>
            loopBody ev s = Inl KeyError)"
proof (intro conjI)
  have "evaluateProposal = evaluateProposal \<or> evaluateProposal = evaluateGreedily" by simp
  from run_completes [OF this assms] show "\<exists>s. doMatch pl ql = Inr s \<and> unmatched s = []"
    unfolding doMatch_def by blast
next
  have "evaluateGreedily = evaluateProposal \<or> evaluateGreedily = evaluateGreedily" by simp
  from run_completes [OF this assms] show "\<exists>s. doGreedyMatch pl ql = Inr s \<and> unmatched s = []"
    unfolding doGreedyMatch_def by blast
next
  show "\<forall>w x. map_of (ranking w) x = None \<longrightarrow>
            evaluateProposal w x = Inr (False, w) \<and> evaluateGreedily w x = Inr (False, w)"
    using policy_unlisted by blast
next
  show "\<forall>ev s u us m. unmatched s = u # us \<and> map_of (proposerPref s) u = Some m \<and>
            proposalIndex m < length (priorities m) \<and>
            map_of (proposees s) (priorities m ! proposalIndex m) = None \<longrightarrow>
            loopBody ev s = Inl KeyError"
    using loopBody_unknown by blast
qed

theorem known_identifiers_no_error_witness:
  "identifiers_known demo_proposers demo_proposees \<and>
   (\<exists>s. doMatch demo_proposers demo_proposees = Inr s \<and> unmatched s = []) \<and>
   (\<exists>s. doGreedyMatch demo_proposers demo_proposees = Inr s \<and> unmatched s = [])"
proof -
  have h: "identifiers_known demo_proposers demo_proposees" by code_simp
  from known_identifiers_no_error [OF h] h show ?thesis by blast
qed

text \<open>
  C2 as stated fails: a proposer that lists an identifier that names no proposee makes
  both engines raise \<open>KeyError\<close> at the lookup \<open>proposees[n]\<close>.
\<close>

theorem unknown_identifier_counterexample:
  "doMatch [(''A'', [''Q''])] [(''X'', [''A''])] = Inl KeyError \<and>
   doGreedyMatch [(''A'', [''Q''])] [(''X'', [''A''])] = Inl KeyError"
  by code_simp




lemma rejected_not_better:
  "evaluateProposal w x = Inr (False, w') \<Longrightarrow> \<not> betterThanPartner w x"
  by (auto simp: evaluateProposal_def betterThanPartner_def split: option.splits if_splits)

lemma accepted_settles:
  assumes "map_of (ranking w) u = Some rs"
    and "partner w = None \<or> (\<exists>p0 rp. partner w = Some p0 \<and> map_of (ranking w) p0 = Some rp \<and> rs < rp)"
    and "p = u \<or> \<not> betterThanPartner w p"
  shows "\<not> betterThanPartner (w\<lparr>rank := Some (rs + 1), partner := Some u\<rparr>) p"
  using assms
  by (auto simp: betterThanPartner_def split: option.splits)

lemma proposals_settled_step:
  assumes body: "loopBody evaluateProposal s = Inr (out, s')"
    and inv: "engine_inv s"
    and settled: "proposals_settled s"
  shows "proposals_settled s'"
proof -
  have pol: "evaluateProposal = evaluateProposal \<or> evaluateProposal = evaluateGreedily"
    by simp
  from body pol inv show ?thesis
  proof (cases rule: loopBody_step)
    case (Exhausted u us m)
    with settled show ?thesis by (simp add: proposals_settled_def)
  next
    case (Rejected u us m n w)
    show ?thesis
      unfolding proposals_settled_def
    proof (intro allI impI, elim conjE)
      fix p m' i
      assume a: "map_of (proposerPref s') p = Some m'" "i < proposalIndex m'"
      show "\<exists>w. map_of (proposees s') (priorities m' ! i) = Some w \<and> \<not> betterThanPartner w p"
      proof (cases "p = u \<and> i = proposalIndex m")
        case True
        from True a(1) Rejected(9) have "m' = m\<lparr>proposalIndex := proposalIndex m + 1\<rparr>"
          by simp
        then have "priorities m' = priorities m" by simp
        with True have "priorities m' ! i = n" by (simp add: Rejected(5))
        moreover from rejected_not_better [OF Rejected(7)] have "\<not> betterThanPartner w u" .
        ultimately show ?thesis using Rejected(6,10) True by simp
      next
        case False
        with a Rejected(2,9) obtain m0 where
          m0: "map_of (proposerPref s) p = Some m0" "i < proposalIndex m0"
            "priorities m0 = priorities m'"
          by (cases "p = u") auto
        with settled obtain w0 where
          "map_of (proposees s) (priorities m0 ! i) = Some w0" "\<not> betterThanPartner w0 p"
          unfolding proposals_settled_def by blast
        with m0(3) show ?thesis by (simp add: Rejected(10))
      qed
    qed
  next
    case (Accepted u us m n w rs)
    from Accepted(8) have free:
      "partner w = None \<or>
       (\<exists>p0 rp. partner w = Some p0 \<and> map_of (ranking w) p0 = Some rp \<and> rs < rp)"
      by blast
    show ?thesis
      unfolding proposals_settled_def
    proof (intro allI impI, elim conjE)
      fix p m' i
      assume a: "map_of (proposerPref s') p = Some m'" "i < proposalIndex m'"
      have before: "p = u \<or>
        (\<exists>w0. map_of (proposees s) (priorities m' ! i) = Some w0 \<and> \<not> betterThanPartner w0 p)"
      proof (cases "p = u")
        case True
        then show ?thesis by simp
      next
        case False
        with a Accepted(10) have "map_of (proposerPref s) p = Some m'" by simp
        with settled a(2) show ?thesis unfolding proposals_settled_def by blast
      qed
      have target: "p = u \<Longrightarrow> priorities m' ! i \<noteq> n \<Longrightarrow>
        \<exists>w0. map_of (proposees s) (priorities m' ! i) = Some w0 \<and> \<not> betterThanPartner w0 p"
      proof -
        assume pu: "p = u" and ne: "priorities m' ! i \<noteq> n"
        from pu a(1) Accepted(10) have "m' = m\<lparr>proposalIndex := proposalIndex m + 1,
            partner := Some n, rank := Some (proposalIndex m + 1)\<rparr>" by simp
        then have pm: "priorities m' = priorities m"
          "proposalIndex m' = proposalIndex m + 1" by simp_all
        with ne Accepted(5) a(2) have "i < proposalIndex m" by (cases "i = proposalIndex m") auto
        with settled Accepted(2) pu pm(1) show ?thesis unfolding proposals_settled_def by force
      qed
      show "\<exists>w. map_of (proposees s') (priorities m' ! i) = Some w \<and> \<not> betterThanPartner w p"
      proof (cases "priorities m' ! i = n")
        case True
        from before Accepted(6) True have "p = u \<or> \<not> betterThanPartner w p" by auto
        from accepted_settles [OF Accepted(7) free this] True show ?thesis
          by (simp add: Accepted(11))
      next
        case False
        with before target obtain w0 where
          "map_of (proposees s) (priorities m' ! i) = Some w0" "\<not> betterThanPartner w0 p"
          by blast
        with False show ?thesis by (simp add: Accepted(11))
      qed
    qed
  next
    case (Displaced u us m n w rs old mOld rp)
    from Displaced(9,14,15) have free:
      "partner w = None \<or>
       (\<exists>p0 rp. partner w = Some p0 \<and> map_of (ranking w) p0 = Some rp \<and> rs < rp)"
      by blast
    show ?thesis
      unfolding proposals_settled_def
    proof (intro allI impI, elim conjE)
      fix p m' i
      assume a: "map_of (proposerPref s') p = Some m'" "i < proposalIndex m'"
      have before: "p = u \<or>
        (\<exists>w0. map_of (proposees s) (priorities m' ! i) = Some w0 \<and> \<not> betterThanPartner w0 p)"
      proof (cases "p = u")
        case True
        then show ?thesis by simp
      next
        case False
        with a Displaced(12,17) obtain m0 where
          m0: "map_of (proposerPref s) p = Some m0" "proposalIndex m0 = proposalIndex m'"
            "priorities m0 = priorities m'"
          by (cases "p = old") auto
        with settled a(2) obtain w0 where
          "map_of (proposees s) (priorities m0 ! i) = Some w0" "\<not> betterThanPartner w0 p"
          unfolding proposals_settled_def by force
        with m0(3) show ?thesis by simp
      qed
      have target: "p = u \<Longrightarrow> priorities m' ! i \<noteq> n \<Longrightarrow>
        \<exists>w0. map_of (proposees s) (priorities m' ! i) = Some w0 \<and> \<not> betterThanPartner w0 p"
      proof -
        assume pu: "p = u" and ne: "priorities m' ! i \<noteq> n"
        from pu a(1) Displaced(17) have "m' = m\<lparr>proposalIndex := proposalIndex m + 1,
            partner := Some n, rank := Some (proposalIndex m + 1)\<rparr>" by simp
        then have pm: "priorities m' = priorities m"
          "proposalIndex m' = proposalIndex m + 1" by simp_all
        with ne Displaced(5) a(2) have "i < proposalIndex m" by (cases "i = proposalIndex m") auto
        with settled Displaced(2) pu pm(1) show ?thesis unfolding proposals_settled_def by force
      qed
      show "\<exists>w. map_of (proposees s') (priorities m' ! i) = Some w \<and> \<not> betterThanPartner w p"
      proof (cases "priorities m' ! i = n")
        case True
        from before Displaced(6) True have "p = u \<or> \<not> betterThanPartner w p" by auto
        from accepted_settles [OF Displaced(7) free this] True show ?thesis
          by (simp add: Displaced(18))
      next
        case False
        with before target obtain w0 where
          "map_of (proposees s) (priorities m' ! i) = Some w0" "\<not> betterThanPartner w0 p"
          by blast
        with False show ?thesis by (simp add: Displaced(18))
      qed
    qed
  qed
qed

lemma proposals_settled_initState: "proposals_settled (initState pl ql)"
  unfolding proposals_settled_def
  by (auto dest!: initState_proposer simp: Proposer_def)

lemma prefs_from_input_initState: "prefs_from_input pl ql (initState pl ql)"
  unfolding prefs_from_input_def
  by (auto dest!: initState_proposer initState_proposee simp: Proposer_def Proposee_def)

lemma prefs_from_input_step:
  assumes body: "loopBody ev s = Inr (out, s')"
    and pol: "ev = evaluateProposal \<or> ev = evaluateGreedily"
    and inv: "engine_inv s"
    and inp: "prefs_from_input pl ql s"
  shows "prefs_from_input pl ql s'"
  using body pol inv
proof (cases rule: loopBody_step)
  case (Exhausted u us m)
  with inp show ?thesis by (simp add: prefs_from_input_def)
next
  case (Rejected u us m n w)
  with inp show ?thesis by (auto simp: prefs_from_input_def)
next
  case (Accepted u us m n w rs)
  with inp show ?thesis by (auto simp: prefs_from_input_def)
next
  case (Displaced u us m n w rs old mOld rp)
  with inp show ?thesis by (auto simp: prefs_from_input_def)
qed

lemma stable_run_invariants:
  "engine_inv s \<Longrightarrow> proposals_settled s \<Longrightarrow> prefs_from_input pl ql s \<Longrightarrow>
   loopIter evaluateProposal k s = Inr s' \<Longrightarrow>
   engine_inv s' \<and> proposals_settled s' \<and> prefs_from_input pl ql s'"
proof (induction k arbitrary: s)
  case 0
  then show ?case by simp
next
  case (Suc k)
  show ?case
  proof (cases "unmatched s = []")
    case True
    with Suc.prems show ?thesis by simp
  next
    case False
    with Suc.prems(4) obtain out s1 where
      b: "loopBody evaluateProposal s = Inr (out, s1)"
      and r: "loopIter evaluateProposal k s1 = Inr s'"
      by (auto split: sum.splits)
    have pol: "evaluateProposal = evaluateProposal \<or> evaluateProposal = evaluateGreedily"
      by simp
    from Suc.IH [OF engine_inv_step [OF b pol Suc.prems(1)]
        proposals_settled_step [OF b Suc.prems(1,2)]
        prefs_from_input_step [OF b pol Suc.prems(1,3)] r]
    show ?thesis .
  qed
qed

lemma before_first:
  assumes "r \<in> set (takeWhile (\<lambda>x. x \<noteq> q) prios)" and "j < length prios" and "prios ! j = q"
  shows "\<exists>i < j. prios ! i = r"
proof -
  let ?t = "takeWhile (\<lambda>x. x \<noteq> q) prios"
  from assms(1) obtain i where i: "i < length ?t" "?t ! i = r"
    by (auto simp: in_set_conv_nth)
  have "\<not> j < length ?t"
  proof
    assume jl: "j < length ?t"
    then have "?t ! j \<in> set ?t" by simp
    then have "?t ! j \<noteq> q" by (auto dest: set_takeWhileD)
    moreover from jl have "?t ! j = prios ! j" by (rule takeWhile_nth)
    ultimately show False using assms(3) by simp
  qed
  with i(1) have "i < j" by simp
  moreover from i have "prios ! i = r" by (simp add: takeWhile_nth)
  ultimately show ?thesis by blast
qed

text \<open>
  C1. In the state that \<open>doMatch\<close> ends in, take a proposer \<open>p\<close> whose partner is \<open>q\<close>
  and a proposee \<open>r\<close> that \<open>p\<close> ranks strictly better than \<open>q\<close>. Then \<open>r\<close> does not rank
  \<open>p\<close> strictly better than its own partner: \<open>p\<close> is not in the \<open>ranking\<close> of \<open>r\<close>, or
  \<open>r\<close> has a partner whose index there is not above that of \<open>p\<close>. The priority lists
  in that state are those of the input, and each \<open>ranking\<close> is the one built from them.
\<close>

theorem stable_matching:
  assumes "doMatch pl ql = Inr s"
    and "map_of (proposerPref s) p = Some m" and "partner m = Some q"
    and "ranksBetter (priorities m) r q"
    and "map_of (proposees s) r = Some w"
  shows "\<not> betterThanPartner w p \<and>
         (p, priorities m) \<in> set pl \<and> (r, priorities w) \<in> set ql \<and>
         ranking w = mk_ranking (priorities w)"
proof -
  from assms(1) have "matchLoop evaluateProposal (initState pl ql) = Inr s"
    by (simp add: doMatch_def)
  from matchLoop_loopIter [OF this] obtain k where
    "loopIter evaluateProposal k (initState pl ql) = Inr s" by blast
  from stable_run_invariants [OF engine_inv_initState proposals_settled_initState
      prefs_from_input_initState this]
  have inv: "engine_inv s" and settled: "proposals_settled s" and inp: "prefs_from_input pl ql s"
    by simp_all
  from inv assms(2,3) have cur: "proposalIndex m \<le> length (priorities m)"
    "0 < proposalIndex m" "priorities m ! (proposalIndex m - 1) = q"
    unfolding engine_inv_def cursor_ok_def by blast+
  from cur(1,2) have "proposalIndex m - 1 < length (priorities m)" by simp
  from before_first [OF _ this cur(3), of r] assms(4) obtain i where
    i: "i < proposalIndex m - 1" "priorities m ! i = r"
    unfolding ranksBetter_def by blast
  from i(1) have "i < proposalIndex m" by simp
  with settled assms(2) obtain w0 where
    "map_of (proposees s) (priorities m ! i) = Some w0" "\<not> betterThanPartner w0 p"
    unfolding proposals_settled_def by blast
  with i(2) assms(5) have "\<not> betterThanPartner w p" by simp
  moreover from inp assms(2,5) have "(p, priorities m) \<in> set pl" "(r, priorities w) \<in> set ql"
    unfolding prefs_from_input_def by blast+
  moreover from inv assms(5) have "ranking w = mk_ranking (priorities w)"
    unfolding engine_inv_def names_ok_def by blast
  ultimately show ?thesis by simp
qed

theorem stable_matching_witness:
  "doMatch pairs_proposers pairs_proposees = Inr pairs_final \<and>
   map_of (proposerPref pairs_final) ''B'' = Some pairs_B \<and>
   partner pairs_B = Some ''Y'' \<and>
   ranksBetter (priorities pairs_B) ''X'' ''Y'' \<and>
   map_of (proposees pairs_final) ''X'' = Some pairs_X \<and>
   \<not> betterThanPartner pairs_X ''B'' \<and>
   (''B'', priorities pairs_B) \<in> set pairs_proposers \<and>
   (''X'', priorities pairs_X) \<in> set pairs_proposees \<and>
   ranking pairs_X = mk_ranking (priorities pairs_X)"
proof -
  have h1: "doMatch pairs_proposers pairs_proposees = Inr pairs_final" by code_simp
  have h2: "map_of (proposerPref pairs_final) ''B'' = Some pairs_B"
    by (simp add: pairs_final_def)
  have h3: "partner pairs_B = Some ''Y''" by (simp add: pairs_B_def)
  have h4: "ranksBetter (priorities pairs_B) ''X'' ''Y''"
    by (simp add: ranksBetter_def pairs_B_def)
  have h5: "map_of (proposees pairs_final) ''X'' = Some pairs_X"
    by (simp add: pairs_final_def)
  from stable_matching [OF h1 h2 h3 h4 h5] h1 h2 h3 h4 h5 show ?thesis by blast
qed

end
